theory Spec2Isabelle
  imports Main "HOL-Library.Sublist" "HOL-Library.AList"
begin

section \<open>JavaScript strings and character classes\<close>

text \<open>
  A JavaScript string is a sequence of UTF-16 code units; a code unit is modelled as a
  natural number. \<open>js\<close> turns an Isabelle string literal into such a sequence.
\<close>

type_synonym jsstring = "nat list"

definition js :: "string \<Rightarrow> jsstring" where
  "js = map of_char"

text \<open>
  The regular-expression class \<^verbatim>\<open>\s\<close> and \<^verbatim>\<open>String.prototype.trim\<close> use the same set:
  WhiteSpace (TAB, VT, FF, SP, NBSP, ZWNBSP and the Unicode space separators) together
  with LineTerminator (LF, CR, LS, PS).
\<close>

definition is_line_terminator :: "nat \<Rightarrow> bool" where
  "is_line_terminator c = (c = 10 \<or> c = 13 \<or> c = 8232 \<or> c = 8233)"

definition is_space :: "nat \<Rightarrow> bool" where
  "is_space c =
     (c = 9 \<or> c = 10 \<or> c = 11 \<or> c = 12 \<or> c = 13 \<or> c = 32 \<or> c = 160 \<or> c = 5760
      \<or> (8192 \<le> c \<and> c \<le> 8202) \<or> c = 8232 \<or> c = 8233 \<or> c = 8239 \<or> c = 8287
      \<or> c = 12288 \<or> c = 65279)"

definition is_digit :: "nat \<Rightarrow> bool" where
  "is_digit c = (48 \<le> c \<and> c \<le> 57)"

definition is_alpha :: "nat \<Rightarrow> bool" where
  "is_alpha c = ((65 \<le> c \<and> c \<le> 90) \<or> (97 \<le> c \<and> c \<le> 122))"

text \<open>\<^verbatim>\<open>\w\<close> is \<^verbatim>\<open>[A-Za-z0-9_]\<close>.\<close>

definition is_word :: "nat \<Rightarrow> bool" where
  "is_word c = (is_alpha c \<or> is_digit c \<or> c = 95)"

text \<open>\<^verbatim>\<open>[a-zA-Z_$]\<close> and \<^verbatim>\<open>[a-zA-Z0-9_$]\<close> of the unquoted-key pattern.\<close>

definition is_ident_start :: "nat \<Rightarrow> bool" where
  "is_ident_start c = (is_alpha c \<or> c = 95 \<or> c = 36)"

definition is_ident_part :: "nat \<Rightarrow> bool" where
  "is_ident_part c = (is_alpha c \<or> is_digit c \<or> c = 95 \<or> c = 36)"

definition trim :: "jsstring \<Rightarrow> jsstring" where
  "trim s = rev (dropWhile is_space (rev (dropWhile is_space s)))"

definition startsWith :: "jsstring \<Rightarrow> nat \<Rightarrow> bool" where
  "startsWith s c = (case s of [] \<Rightarrow> False | x # _ \<Rightarrow> x = c)"

definition endsWith :: "jsstring \<Rightarrow> nat \<Rightarrow> bool" where
  "endsWith s c = (s \<noteq> [] \<and> last s = c)"

section \<open>The regular expressions of extractJson\<close>

text \<open>
  Each pattern of the source is modelled by a matcher that decides whether the pattern
  matches at the head of the remaining text, and a scan that tries the positions from
  left to right, as \<^verbatim>\<open>String.prototype.replace\<close> does. Greedy quantifiers are followed
  by a character that is outside their class in every pattern but \<^verbatim>\<open>\s*$\<close> under the
  multiline flag, so only there backtracking is written out.
\<close>

subsection \<open>Markdown fences (lines 15 to 17)\<close>

text \<open>
  \<^verbatim>\<open>/^```json\s*/gm\<close> and \<^verbatim>\<open>/^```\s*/gm\<close>: every occurrence of the fence that starts a
  line is removed together with the white space after it. \<open>bol\<close> says that the
  position is the start of the text or follows a line terminator.
\<close>

function strip_line_start :: "jsstring \<Rightarrow> bool \<Rightarrow> jsstring \<Rightarrow> jsstring" where
  "strip_line_start fence bol [] = []"
| "strip_line_start fence bol (c # cs) =
     (if fence \<noteq> [] \<and> bol \<and> prefix fence (c # cs)
      then (let after = drop (length fence) (c # cs);
                matched = fence @ takeWhile is_space after
            in strip_line_start fence (is_line_terminator (last matched))
                 (dropWhile is_space after))
      else c # strip_line_start fence (is_line_terminator c) cs)"
  by pat_completeness auto
termination
proof (relation "measure (\<lambda>(fence, bol, s). length s)")
  show "wf (measure (\<lambda>(fence, bol, s). length s))" by simp
next
  fix fence :: jsstring and bol c cs after matched
  assume a: "fence \<noteq> [] \<and> bol \<and> prefix fence (c # cs)"
     and b: "after = drop (length fence) (c # cs)"
  have "length (dropWhile is_space after) \<le> length after"
    by (rule length_dropWhile_le)
  moreover have "length after < length (c # cs)"
    using a b by (cases fence) auto
  ultimately show "((fence, is_line_terminator (last matched), dropWhile is_space after),
                    fence, bol, c # cs) \<in> measure (\<lambda>(fence, bol, s). length s)"
    by simp
next
  fix fence :: jsstring and bol c cs
  show "((fence, is_line_terminator c, cs), fence, bol, c # cs)
          \<in> measure (\<lambda>(fence, bol, s). length s)"
    by simp
qed

text \<open>
  \<^verbatim>\<open>\s*$\<close> under the multiline flag, at the head of the text: the star takes as much
  white space as it can and gives characters back until \<^verbatim>\<open>$\<close> holds, that is until
  the text ends or a line terminator follows. The result is the number of characters
  the star keeps.
\<close>

fun spaces_then_eol :: "jsstring \<Rightarrow> nat option" where
  "spaces_then_eol [] = Some 0"
| "spaces_then_eol (c # cs) =
     (if is_space c
      then (case spaces_then_eol cs of
              Some k \<Rightarrow> Some (Suc k)
            | None \<Rightarrow> if is_line_terminator c then Some 0 else None)
      else if is_line_terminator c then Some 0 else None)"

definition fence_end_match :: "jsstring \<Rightarrow> nat option" where
  "fence_end_match s =
     (if prefix (js ''```'') s
      then map_option (\<lambda>k. 3 + k) (spaces_then_eol (drop 3 s))
      else None)"

text \<open>\<^verbatim>\<open>/```\s*$/gm\<close>: every fence that ends a line is removed.\<close>

function strip_line_end :: "jsstring \<Rightarrow> jsstring" where
  "strip_line_end [] = []"
| "strip_line_end (c # cs) =
     (case fence_end_match (c # cs) of
        Some n \<Rightarrow> strip_line_end (drop n (c # cs))
      | None \<Rightarrow> c # strip_line_end cs)"
  by pat_completeness auto
termination
proof (relation "measure length")
  show "wf (measure length)" by simp
next
  fix c :: nat and cs n
  assume "fence_end_match (c # cs) = Some n"
  then have "3 \<le> n"
    by (auto simp: fence_end_match_def split: if_splits)
  then show "(drop n (c # cs), c # cs) \<in> measure length"
    by simp
next
  fix c :: nat and cs
  show "(cs, c # cs) \<in> measure length" by simp
qed

subsection \<open>Declaration prefix and statement terminator (lines 20 to 23)\<close>

text \<open>
  \<^verbatim>\<open>/^const\s+\w+\s*=\s*/\<close> and its \<^verbatim>\<open>let\<close> and \<^verbatim>\<open>var\<close> forms, without flags: the
  pattern can only match at the start of the text.
\<close>

definition strip_decl :: "jsstring \<Rightarrow> jsstring \<Rightarrow> jsstring" where
  "strip_decl kw s =
     (if prefix kw s
      then (let r1 = drop (length kw) s;
                sp = takeWhile is_space r1;
                r2 = dropWhile is_space r1;
                w = takeWhile is_word r2;
                r3 = dropWhile is_space (dropWhile is_word r2)
            in if sp \<noteq> [] \<and> w \<noteq> [] \<and> startsWith r3 61
               then dropWhile is_space (tl r3)
               else s)
      else s)"

text \<open>
  \<^verbatim>\<open>/;?\s*$/\<close> without flags: the leftmost position from which an optional semicolon
  and white space reach the end of the text; what follows that position is removed.
\<close>

fun strip_terminator :: "jsstring \<Rightarrow> jsstring" where
  "strip_terminator [] = []"
| "strip_terminator (c # cs) =
     (if (c = 59 \<and> list_all is_space cs) \<or> list_all is_space (c # cs) then []
      else c # strip_terminator cs)"

subsection \<open>Greedy object and array match (lines 26 and 27)\<close>

text \<open>
  \<^verbatim>\<open>/{[\s\S]*}/\<close> and \<^verbatim>\<open>/\[[\s\S]*\]/\<close>: from the first opening character to the last
  closing character after it; no match when no closing character follows the first
  opening one.
\<close>

definition greedy_between :: "nat \<Rightarrow> nat \<Rightarrow> jsstring \<Rightarrow> jsstring option" where
  "greedy_between opn cls s =
     (case dropWhile (\<lambda>c. c \<noteq> opn) s of
        [] \<Rightarrow> None
      | c # body \<Rightarrow>
          if cls \<in> set body
          then Some (c # rev (dropWhile (\<lambda>x. x \<noteq> cls) (rev body)))
          else None)"

text \<open>Lines 12 to 33: the candidate text that is handed to the first strict parse.\<close>

definition candidate :: "jsstring \<Rightarrow> jsstring" where
  "candidate text =
     (let jsonText = trim text;
          jsonText = strip_line_start (js ''```json'') True jsonText;
          jsonText = strip_line_start (js ''```'') True jsonText;
          jsonText = strip_line_end jsonText;
          jsonText = strip_decl (js ''const'') jsonText;
          jsonText = strip_decl (js ''let'') jsonText;
          jsonText = strip_decl (js ''var'') jsonText;
          jsonText = strip_terminator jsonText;
          objectMatch = greedy_between 123 125 jsonText;
          arrayMatch = greedy_between 91 93 jsonText
      in case objectMatch of
           Some m \<Rightarrow> m
         | None \<Rightarrow> (case arrayMatch of Some m \<Rightarrow> m | None \<Rightarrow> jsonText))"

section \<open>Strict JSON parsing (\<^verbatim>\<open>JSON.parse\<close>)\<close>

subsection \<open>Values\<close>

text \<open>
  A number literal is kept as the decimal it denotes, \<open>\<plusminus> mantissa \<times> 10\<^bsup>exp10\<^esup>\<close>; the
  Number value is the double nearest to it. What the program can observe of that double
  is whether it is zero (truthiness) and whether it is finite (serialisation); both are
  decided exactly by comparing the decimal with the rounding boundaries \<open>2\<^bsup>-1075\<^esup>\<close>
  and \<open>2\<^bsup>1024\<^esup> - 2\<^bsup>970\<^esup>\<close> of round-to-nearest-even.
\<close>

record decimal =
  negative :: bool
  mantissa :: nat
  exp10 :: int

datatype json =
    JNull
  | JBool bool
  | JNumber decimal
  | JString jsstring
  | JArray "json list"
  | JObject "(jsstring \<times> json) list"

definition number_is_zero :: "decimal \<Rightarrow> bool" where
  "number_is_zero d =
     (if 0 \<le> exp10 d then mantissa d = 0
      else mantissa d * 2 ^ 1075 \<le> 10 ^ nat (- exp10 d))"

definition number_is_finite :: "decimal \<Rightarrow> bool" where
  "number_is_finite d =
     (if 0 \<le> exp10 d then mantissa d * 10 ^ nat (exp10 d) < 2 ^ 1024 - 2 ^ 970
      else mantissa d < (2 ^ 1024 - 2 ^ 970) * 10 ^ nat (- exp10 d))"

text \<open>
  The exceptions of this module: \<^verbatim>\<open>JSON.parse\<close> throws a \<^verbatim>\<open>SyntaxError\<close> on a text that is
  not JSON; \<^verbatim>\<open>JSON.stringify\<close> throws a \<^verbatim>\<open>RangeError\<close> when its recursion exceeds the call
  stack.
\<close>

datatype exn = SyntaxError | RangeError

subsection \<open>Tokens\<close>

datatype token =
    TLBrace | TRBrace | TLBrack | TRBrack | TColon | TComma
  | TString jsstring | TNumber decimal | TTrue | TFalse | TNull

text \<open>JSON white space is TAB, LF, CR and SP only.\<close>

definition is_json_space :: "nat \<Rightarrow> bool" where
  "is_json_space c = (c = 9 \<or> c = 10 \<or> c = 13 \<or> c = 32)"

definition hex_value :: "nat \<Rightarrow> nat option" where
  "hex_value c =
     (if 48 \<le> c \<and> c \<le> 57 then Some (c - 48)
      else if 97 \<le> c \<and> c \<le> 102 then Some (c - 87)
      else if 65 \<le> c \<and> c \<le> 70 then Some (c - 55)
      else None)"

text \<open>The single-character escapes \<^verbatim>\<open>\" \\ \/ \b \f \n \r \t\<close>.\<close>

definition escape_char :: "nat \<Rightarrow> nat option" where
  "escape_char c =
     (if c = 34 then Some 34 else if c = 92 then Some 92 else if c = 47 then Some 47
      else if c = 98 then Some 8 else if c = 102 then Some 12 else if c = 110 then Some 10
      else if c = 114 then Some 13 else if c = 116 then Some 9 else None)"

text \<open>
  The characters of a string literal after its opening quote: the decoded string and
  the text after the closing quote. A control character below U+0020, an unknown
  escape or a missing closing quote is an error.
\<close>

fun lex_string :: "jsstring \<Rightarrow> (jsstring \<times> jsstring) option" where
  "lex_string [] = None"
| "lex_string (c # cs) =
     (if c = 34 then Some ([], cs)
      else if c = 92 then
        (case cs of
           [] \<Rightarrow> None
         | e # es \<Rightarrow>
             if e = 117 then
               (case es of
                  h1 # h2 # h3 # h4 # rest \<Rightarrow>
                    (case (hex_value h1, hex_value h2, hex_value h3, hex_value h4) of
                       (Some a, Some b, Some c, Some d) \<Rightarrow>
                         map_option (\<lambda>(s, r). ((4096 * a + 256 * b + 16 * c + d) # s, r))
                           (lex_string rest)
                     | _ \<Rightarrow> None)
                | _ \<Rightarrow> None)
             else
               (case escape_char e of
                  None \<Rightarrow> None
                | Some x \<Rightarrow> map_option (\<lambda>(s, r). (x # s, r)) (lex_string es)))
      else if c < 32 then None
      else map_option (\<lambda>(s, r). (c # s, r)) (lex_string cs))"

definition digits_value :: "jsstring \<Rightarrow> nat" where
  "digits_value ds = foldl (\<lambda>a d. 10 * a + (d - 48)) 0 ds"

text \<open>
  A number literal at the head of the text:
  \<^verbatim>\<open>-? (0 | [1-9][0-9]*) (. [0-9]+)? ([eE] [+-]? [0-9]+)?\<close>. Each part returns what
  it read and the text after it.
\<close>

definition lex_sign :: "jsstring \<Rightarrow> bool \<times> jsstring" where
  "lex_sign s = (case s of [] \<Rightarrow> (False, s) | c # r \<Rightarrow> if c = 45 then (True, r) else (False, s))"

definition lex_int :: "jsstring \<Rightarrow> (jsstring \<times> jsstring) option" where
  "lex_int s =
     (case s of
        [] \<Rightarrow> None
      | d # r \<Rightarrow>
          if d = 48 then Some ([d], r)
          else if is_digit d then Some (d # takeWhile is_digit r, dropWhile is_digit r)
          else None)"

definition lex_frac :: "jsstring \<Rightarrow> (jsstring \<times> jsstring) option" where
  "lex_frac s =
     (if startsWith s 46
      then (if takeWhile is_digit (tl s) = [] then None
            else Some (takeWhile is_digit (tl s), dropWhile is_digit (tl s)))
      else Some ([], s))"

definition lex_exp :: "jsstring \<Rightarrow> (int \<times> jsstring) option" where
  "lex_exp s =
     (if startsWith s 101 \<or> startsWith s 69
      then (let (eneg, r) = (if startsWith (tl s) 45 then (True, tl (tl s))
                             else if startsWith (tl s) 43 then (False, tl (tl s))
                             else (False, tl s))
            in if takeWhile is_digit r = [] then None
               else Some (if eneg then - int (digits_value (takeWhile is_digit r))
                          else int (digits_value (takeWhile is_digit r)),
                          dropWhile is_digit r))
      else Some (0, s))"

definition lex_number :: "jsstring \<Rightarrow> (decimal \<times> jsstring) option" where
  "lex_number s =
     (case lex_sign s of (neg, s1) \<Rightarrow>
      case lex_int s1 of None \<Rightarrow> None | Some (ip, s2) \<Rightarrow>
      case lex_frac s2 of None \<Rightarrow> None | Some (fp, s3) \<Rightarrow>
      case lex_exp s3 of None \<Rightarrow> None | Some (e, s4) \<Rightarrow>
        Some (\<lparr>negative = neg, mantissa = digits_value (ip @ fp),
                exp10 = e - int (length fp)\<rparr>, s4))"

text \<open>
  The tokens of a text. A character that starts no token is an error, so is a literal
  name other than \<^verbatim>\<open>true\<close>, \<^verbatim>\<open>false\<close> and \<^verbatim>\<open>null\<close>.
\<close>

lemma lex_string_shorter:
  "lex_string s = Some (v, rest) \<Longrightarrow> length rest < length s"
proof (induction s arbitrary: v rest rule: lex_string.induct)
  case 1
  then show ?case by simp
next
  case (2 c cs)
  then show ?case
    by (fastforce split: if_splits list.splits option.splits)
qed

lemma lex_sign_le: "lex_sign s = (b, r) \<Longrightarrow> length r \<le> length s"
  by (auto simp: lex_sign_def split: list.splits if_splits)

lemma lex_int_shorter: "lex_int s = Some (ip, r) \<Longrightarrow> length r < length s"
  by (auto simp: lex_int_def less_Suc_eq_le length_dropWhile_le split: list.splits if_splits)

lemma length_tl_dropWhile_le: "length (dropWhile P (tl s)) \<le> length s"
  by (metis diff_le_self le_trans length_dropWhile_le length_tl)

lemma lex_frac_le: "lex_frac s = Some (fp, r) \<Longrightarrow> length r \<le> length s"
  by (auto simp: lex_frac_def length_tl_dropWhile_le split: if_splits)

lemma lex_exp_le: "lex_exp s = Some (e, r) \<Longrightarrow> length r \<le> length s"
proof -
  have "length (dropWhile is_digit (tl (tl s))) \<le> length s"
    by (metis diff_le_self le_trans length_dropWhile_le length_tl)
  then show "lex_exp s = Some (e, r) \<Longrightarrow> length r \<le> length s"
    by (auto simp: lex_exp_def Let_def length_tl_dropWhile_le split: if_splits)
qed

lemma lex_number_shorter:
  "lex_number s = Some (d, rest) \<Longrightarrow> length rest < length s"
  unfolding lex_number_def
  by (auto split: prod.splits option.splits
           dest!: lex_sign_le lex_int_shorter lex_frac_le lex_exp_le)

function JSON_lex :: "jsstring \<Rightarrow> token list option" where
  "JSON_lex [] = Some []"
| "JSON_lex (c # cs) =
     (if is_json_space c then JSON_lex cs
      else if c = 123 then map_option ((#) TLBrace) (JSON_lex cs)
      else if c = 125 then map_option ((#) TRBrace) (JSON_lex cs)
      else if c = 91 then map_option ((#) TLBrack) (JSON_lex cs)
      else if c = 93 then map_option ((#) TRBrack) (JSON_lex cs)
      else if c = 58 then map_option ((#) TColon) (JSON_lex cs)
      else if c = 44 then map_option ((#) TComma) (JSON_lex cs)
      else if c = 34 then
        (case lex_string cs of
           None \<Rightarrow> None
         | Some (s, rest) \<Rightarrow> map_option ((#) (TString s)) (JSON_lex rest))
      else if c = 45 \<or> is_digit c then
        (case lex_number (c # cs) of
           None \<Rightarrow> None
         | Some (d, rest) \<Rightarrow> map_option ((#) (TNumber d)) (JSON_lex rest))
      else if prefix (js ''true'') (c # cs) then map_option ((#) TTrue) (JSON_lex (drop 4 (c # cs)))
      else if prefix (js ''false'') (c # cs) then map_option ((#) TFalse) (JSON_lex (drop 5 (c # cs)))
      else if prefix (js ''null'') (c # cs) then map_option ((#) TNull) (JSON_lex (drop 4 (c # cs)))
      else None)"
  by pat_completeness auto
termination
  by (relation "measure length")
     (auto dest: lex_string_shorter lex_number_shorter)

subsection \<open>The grammar\<close>

text \<open>
  Recursive descent over the tokens. An object is built by defining its members in
  source order, so a repeated key keeps its first position and its last value.
\<close>

function (sequential) parse_value :: "token list \<Rightarrow> (json \<times> token list) option"
  and parse_elements :: "json list \<Rightarrow> token list \<Rightarrow> (json \<times> token list) option"
  and parse_members :: "(jsstring \<times> json) list \<Rightarrow> token list \<Rightarrow> (json \<times> token list) option"
where
  "parse_value [] = None"
| "parse_value (TString s # ts) = Some (JString s, ts)"
| "parse_value (TNumber d # ts) = Some (JNumber d, ts)"
| "parse_value (TTrue # ts) = Some (JBool True, ts)"
| "parse_value (TFalse # ts) = Some (JBool False, ts)"
| "parse_value (TNull # ts) = Some (JNull, ts)"
| "parse_value (TLBrack # TRBrack # ts) = Some (JArray [], ts)"
| "parse_value (TLBrack # ts) = parse_elements [] ts"
| "parse_value (TLBrace # TRBrace # ts) = Some (JObject [], ts)"
| "parse_value (TLBrace # ts) = parse_members [] ts"
| "parse_value (_ # ts) = None"
| "parse_elements acc ts =
     (case parse_value ts of
        None \<Rightarrow> None
      | Some (v, rest) \<Rightarrow>
          (case rest of
             TComma # rest' \<Rightarrow> parse_elements (acc @ [v]) rest'
           | TRBrack # rest' \<Rightarrow> Some (JArray (acc @ [v]), rest')
           | _ \<Rightarrow> None))"
| "parse_members acc (TString k # TColon # ts) =
     (case parse_value ts of
        None \<Rightarrow> None
      | Some (v, rest) \<Rightarrow>
          (case rest of
             TComma # rest' \<Rightarrow> parse_members (AList.update k v acc) rest'
           | TRBrace # rest' \<Rightarrow> Some (JObject (AList.update k v acc), rest')
           | _ \<Rightarrow> None))"
| "parse_members acc _ = None"
  by pat_completeness auto

lemma parse_shorter:
  "parse_value_parse_elements_parse_members_dom (Inl ts) \<Longrightarrow>
     parse_value ts = Some (v, rest) \<Longrightarrow> length rest < length ts"
  "parse_value_parse_elements_parse_members_dom (Inr (Inl (acc, ts))) \<Longrightarrow>
     parse_elements acc ts = Some (v, rest) \<Longrightarrow> length rest < length ts"
  "parse_value_parse_elements_parse_members_dom (Inr (Inr (macc, ts))) \<Longrightarrow>
     parse_members macc ts = Some (v, rest) \<Longrightarrow> length rest < length ts"
proof (induction ts and acc ts and macc ts arbitrary: v rest and v rest and v rest
       rule: parse_value_parse_elements_parse_members.pinduct)
  case (12 acc ts)
  from 12(1) 12(4) obtain w r where pv: "parse_value ts = Some (w, r)"
    by (auto simp: parse_elements.psimps split: option.splits)
  have r: "length r < length ts" using 12(2) pv by blast
  show ?case
  proof (cases r)
    case Nil
    with 12(1) 12(4) pv show ?thesis by (simp add: parse_elements.psimps)
  next
    case (Cons t r')
    show ?thesis
    proof (cases "t = TComma")
      case True
      with 12(1) 12(4) pv Cons have "parse_elements (acc @ [w]) r' = Some (v, rest)"
        by (simp add: parse_elements.psimps)
      with 12(3) pv Cons True have "length rest < length r'" by blast
      with r Cons show ?thesis by simp
    next
      case False
      with 12(1) 12(4) pv Cons r show ?thesis
        by (cases t) (auto simp: parse_elements.psimps)
    qed
  qed
next
  case (13 acc k ts)
  from 13(1) 13(4) obtain w r where pv: "parse_value ts = Some (w, r)"
    by (auto simp: parse_members.psimps split: option.splits)
  have r: "length r < length ts" using 13(2) pv by blast
  show ?case
  proof (cases r)
    case Nil
    with 13(1) 13(4) pv show ?thesis by (simp add: parse_members.psimps)
  next
    case (Cons t r')
    show ?thesis
    proof (cases "t = TComma")
      case True
      with 13(1) 13(4) pv Cons have "parse_members (AList.update k w acc) r' = Some (v, rest)"
        by (simp add: parse_members.psimps)
      with 13(3) pv Cons True have "length rest < length r'" by blast
      with r Cons show ?thesis by simp
    next
      case False
      with 13(1) 13(4) pv Cons r show ?thesis
        by (cases t) (auto simp: parse_members.psimps)
    qed
  qed
qed (auto simp: parse_value.psimps parse_members.psimps)

termination parse_value
  apply (relation "measure (\<lambda>x. case x of
          Inl ts \<Rightarrow> 2 * length ts
        | Inr (Inl (acc, ts)) \<Rightarrow> 2 * length ts + 1
        | Inr (Inr (acc, ts)) \<Rightarrow> 2 * length ts + 1)")
  apply (auto dest: parse_shorter(1))
  done

definition JSON_parse :: "jsstring \<Rightarrow> exn + json" where
  "JSON_parse s =
     (case JSON_lex s of
        None \<Rightarrow> Inl SyntaxError
      | Some ts \<Rightarrow>
          (case parse_value ts of
             Some (v, []) \<Rightarrow> Inr v
           | _ \<Rightarrow> Inl SyntaxError))"

section \<open>extractJson\<close>

text \<open>
  \<^verbatim>\<open>try { body } catch { handler }\<close>: the handler runs when the body throws.
\<close>

definition try_catch :: "exn + 'a \<Rightarrow> exn + 'a \<Rightarrow> exn + 'a" where
  "try_catch body handler = (case body of Inl e \<Rightarrow> handler | Inr v \<Rightarrow> Inr v)"

text \<open>\<^verbatim>\<open>JSON.parse(t); return t;\<close>\<close>

definition parse_then_return :: "jsstring \<Rightarrow> exn + jsstring" where
  "parse_then_return t = (case JSON_parse t of Inl e \<Rightarrow> Inl e | Inr v \<Rightarrow> Inr t)"

subsection \<open>Structural repair (lines 43 to 74)\<close>

text \<open>
  \<^verbatim>\<open>String.prototype.replace\<close> with a pattern without the global flag: the leftmost
  match is replaced, the rest of the text is kept. A matcher returns the length of the
  match at the head of the text and the replacement text with its group references
  filled in.
\<close>

fun replace_first :: "(jsstring \<Rightarrow> (nat \<times> jsstring) option) \<Rightarrow> jsstring \<Rightarrow> jsstring" where
  "replace_first m [] = (case m [] of Some (n, rep) \<Rightarrow> rep | None \<Rightarrow> [])"
| "replace_first m (c # cs) =
     (case m (c # cs) of
        Some (n, rep) \<Rightarrow> rep @ drop n (c # cs)
      | None \<Rightarrow> c # replace_first m cs)"

text \<open>What a dangling colon is followed by: the end of the text, or a given character.\<close>

datatype tail = AtEnd | Before nat

definition tail_text :: "tail \<Rightarrow> jsstring" where
  "tail_text t = (case t of AtEnd \<Rightarrow> [] | Before c \<Rightarrow> [c])"

text \<open>\<^verbatim>\<open>:\s*$\<close>, \<^verbatim>\<open>:\s*}\<close> and \<^verbatim>\<open>:\s*,\<close> at the head of the text: the length matched.\<close>

definition colon_tail :: "tail \<Rightarrow> jsstring \<Rightarrow> nat option" where
  "colon_tail t s =
     (case s of
        [] \<Rightarrow> None
      | c # r \<Rightarrow>
          if c \<noteq> 58 then None
          else (case t of
                  AtEnd \<Rightarrow>
                    if dropWhile is_space r = [] then Some (1 + length r) else None
                | Before x \<Rightarrow>
                    if startsWith (dropWhile is_space r) x
                    then Some (2 + length (takeWhile is_space r)) else None))"

text \<open>\<^verbatim>\<open>"name"\s*:\s*\<close> followed by the tail, at the head of the text.\<close>

definition key_colon_tail :: "jsstring \<Rightarrow> tail \<Rightarrow> jsstring \<Rightarrow> nat option" where
  "key_colon_tail name t s =
     (let q = 34 # name @ [34]
      in if prefix q s
         then map_option (\<lambda>n. length q + length (takeWhile is_space (drop (length q) s)) + n)
                (colon_tail t (dropWhile is_space (drop (length q) s)))
         else None)"

text \<open>
  The replacements \<^verbatim>\<open>'"dependencies": []'\<close>, \<^verbatim>\<open>'"dependencies": []}'\<close>,
  \<^verbatim>\<open>'"dependencies": [],'\<close>, and the same for \<^verbatim>\<open>subtasks\<close>.
\<close>

definition key_fix :: "jsstring \<Rightarrow> jsstring \<Rightarrow> tail \<Rightarrow> jsstring \<Rightarrow> (nat \<times> jsstring) option" where
  "key_fix name val t s =
     map_option (\<lambda>n. (n, 34 # name @ [34] @ js '': '' @ val @ tail_text t))
       (key_colon_tail name t s)"

text \<open>
  \<^verbatim>\<open>"(title|description|details|testStrategy)"\s*:\s*\<close> followed by the tail, replaced
  by \<^verbatim>\<open>'"$1": ""'\<close> and the tail: the alternatives are tried in order.
\<close>

definition string_fields :: "jsstring list" where
  "string_fields = [js ''title'', js ''description'', js ''details'', js ''testStrategy'']"

definition field_fix :: "tail \<Rightarrow> jsstring \<Rightarrow> (nat \<times> jsstring) option" where
  "field_fix t s =
     (case List.find (\<lambda>name. key_colon_tail name t s \<noteq> None) string_fields of
        None \<Rightarrow> None
      | Some name \<Rightarrow> key_fix name [34, 34] t s)"

text \<open>\<^verbatim>\<open>': ""'\<close>, \<^verbatim>\<open>': ""}'\<close> and \<^verbatim>\<open>': "",'\<close> for any other dangling colon.\<close>

definition colon_fix :: "tail \<Rightarrow> jsstring \<Rightarrow> (nat \<times> jsstring) option" where
  "colon_fix t s = map_option (\<lambda>n. (n, js '': '' @ [34, 34] @ tail_text t)) (colon_tail t s)"

text \<open>
  \<^verbatim>\<open>/,(\s*[}\]])/\<close> replaced by \<^verbatim>\<open>'$1'\<close>: a comma, white space and a closing brace or
  bracket; the replacement is the group, that is the match without its comma.
\<close>

definition trailing_comma :: "jsstring \<Rightarrow> (nat \<times> jsstring) option" where
  "trailing_comma s =
     (case s of
        [] \<Rightarrow> None
      | c # r \<Rightarrow>
          if c = 44 \<and> (startsWith (dropWhile is_space r) 125 \<or> startsWith (dropWhile is_space r) 93)
          then Some (2 + length (takeWhile is_space r),
                     takeWhile is_space r @ [hd (dropWhile is_space r)])
          else None)"

definition repair :: "jsstring \<Rightarrow> jsstring" where
  "repair jsonText =
     (let fixedJson = jsonText;
          fixedJson = replace_first (key_fix (js ''dependencies'') (js ''[]'') AtEnd) fixedJson;
          fixedJson = replace_first (key_fix (js ''dependencies'') (js ''[]'') (Before 125)) fixedJson;
          fixedJson = replace_first (key_fix (js ''dependencies'') (js ''[]'') (Before 44)) fixedJson;
          fixedJson = replace_first (key_fix (js ''subtasks'') (js ''[]'') AtEnd) fixedJson;
          fixedJson = replace_first (key_fix (js ''subtasks'') (js ''[]'') (Before 125)) fixedJson;
          fixedJson = replace_first (key_fix (js ''subtasks'') (js ''[]'') (Before 44)) fixedJson;
          fixedJson = replace_first (field_fix AtEnd) fixedJson;
          fixedJson = replace_first (field_fix (Before 125)) fixedJson;
          fixedJson = replace_first (field_fix (Before 44)) fixedJson;
          fixedJson = replace_first (colon_fix AtEnd) fixedJson;
          fixedJson = replace_first (colon_fix (Before 125)) fixedJson;
          fixedJson = replace_first (colon_fix (Before 44)) fixedJson;
          fixedJson = replace_first trailing_comma fixedJson;
          fixedJson = (if startsWith fixedJson 123 \<and> \<not> endsWith fixedJson 125
                       then fixedJson @ [125] else fixedJson);
          fixedJson = (if startsWith fixedJson 91 \<and> \<not> endsWith fixedJson 93
                       then fixedJson @ [93] else fixedJson)
      in fixedJson)"

subsection \<open>Object-literal conversion (lines 84 to 87)\<close>

text \<open>
  \<^verbatim>\<open>/([{,]\s*)([a-zA-Z_$][a-zA-Z0-9_$]*)\s*:/g\<close> replaced by \<^verbatim>\<open>'$1"$2":'\<close>: the
  whitespace between the key and its colon is dropped, and the scan goes on after the
  colon.
\<close>

definition unquoted_key :: "jsstring \<Rightarrow> (jsstring \<times> jsstring) option" where
  "unquoted_key s =
     (case s of
        [] \<Rightarrow> None
      | c # r \<Rightarrow>
          if c = 123 \<or> c = 44 then
            (case dropWhile is_space r of
               [] \<Rightarrow> None
             | d # ds \<Rightarrow>
                 if is_ident_start d then
                   (case dropWhile is_space (dropWhile is_ident_part ds) of
                      [] \<Rightarrow> None
                    | e # es \<Rightarrow>
                        if e = 58
                        then Some (c # takeWhile is_space r @ [34] @ d # takeWhile is_ident_part ds
                                     @ [34, 58], es)
                        else None)
                 else None)
          else None)"

lemma dropWhile_Cons_shorter:
  "dropWhile P xs = y # ys \<Longrightarrow> length ys < length xs"
  by (metis length_dropWhile_le length_Cons less_Suc_eq_le Suc_le_eq)

lemma unquoted_key_shorter:
  assumes "unquoted_key s = Some (rep, rest)"
  shows "length rest < length s"
proof -
  from assms obtain c r d ds where s: "s = c # r"
    and d: "dropWhile is_space r = d # ds"
    and e: "dropWhile is_space (dropWhile is_ident_part ds) = 58 # rest"
    unfolding unquoted_key_def
    by (auto split: list.splits if_splits)
  have "length rest < length (dropWhile is_ident_part ds)"
    using e by (rule dropWhile_Cons_shorter)
  also have "\<dots> \<le> length ds" by (rule length_dropWhile_le)
  also have "\<dots> < length r" using d by (rule dropWhile_Cons_shorter)
  finally show ?thesis using s by simp
qed

function quote_keys :: "jsstring \<Rightarrow> jsstring" where
  "quote_keys [] = []"
| "quote_keys (c # cs) =
     (case unquoted_key (c # cs) of
        Some (rep, rest) \<Rightarrow> rep @ quote_keys rest
      | None \<Rightarrow> c # quote_keys cs)"
  by pat_completeness auto
termination
  by (relation "measure length") (auto dest: unquoted_key_shorter)

definition convert :: "jsstring \<Rightarrow> jsstring" where
  "convert jsonText = map (\<lambda>c. if c = 39 then 34 else c) (quote_keys jsonText)"

subsection \<open>The function (lines 10 to 99)\<close>

definition extractJson :: "jsstring \<Rightarrow> exn + jsstring" where
  "extractJson text =
     (let jsonText = candidate text
      in try_catch (parse_then_return jsonText)
           (try_catch (parse_then_return (repair jsonText))
              (try_catch (parse_then_return (convert jsonText))
                 (Inr text))))"


section \<open>Objects\<close>

text \<open>\<^verbatim>\<open>typeof v === 'object' && v !== null\<close> holds of arrays and objects.\<close>

definition is_object :: "json \<Rightarrow> bool" where
  "is_object v = (case v of JArray _ \<Rightarrow> True | JObject _ \<Rightarrow> True | _ \<Rightarrow> False)"

definition isArray :: "json option \<Rightarrow> bool" where
  "isArray v = (case v of Some (JArray _) \<Rightarrow> True | _ \<Rightarrow> False)"

fun digits_of :: "nat \<Rightarrow> jsstring" where
  "digits_of n = (if n < 10 then [48 + n] else digits_of (n div 10) @ [48 + n mod 10])"

declare digits_of.simps [simp del]

text \<open>
  An array index is the canonical decimal form of an integer below \<open>2\<^bsup>32\<^esup> - 1\<close>. The own
  keys of an object are enumerated with the array indices first, in ascending order,
  then the other keys in the order in which they were created.
\<close>

definition is_array_index :: "jsstring \<Rightarrow> bool" where
  "is_array_index k =
     (k \<noteq> [] \<and> list_all is_digit k \<and> (hd k \<noteq> 48 \<or> k = [48]) \<and> digits_value k < 4294967295)"

definition ordered_entries :: "(jsstring \<times> json) list \<Rightarrow> (jsstring \<times> json) list" where
  "ordered_entries kvs =
     sort_key (\<lambda>(k, v). digits_value k) (filter (\<lambda>(k, v). is_array_index k) kvs)
     @ filter (\<lambda>(k, v). \<not> is_array_index k) kvs"

text \<open>The own enumerable properties of an array or an object, in enumeration order.\<close>

definition own_entries :: "json \<Rightarrow> (jsstring \<times> json) list" where
  "own_entries v =
     (case v of
        JObject kvs \<Rightarrow> ordered_entries kvs
      | JArray xs \<Rightarrow> zip (map digits_of [0..<length xs]) xs
      | _ \<Rightarrow> [])"

text \<open>
  The property reads \<^verbatim>\<open>parsed.title\<close>, \<^verbatim>\<open>parsed.description\<close>, \<^verbatim>\<open>parsed.details\<close>,
  \<^verbatim>\<open>parsed.testStrategy\<close> and \<^verbatim>\<open>parsed.dependencies\<close>; \<open>None\<close> is \<^verbatim>\<open>undefined\<close>. None
  of these names is an array index, \<^verbatim>\<open>length\<close> or a property of the prototypes, so on
  an array they are undefined, and on an object they are its own property or undefined.
\<close>

definition get_prop :: "json \<Rightarrow> jsstring \<Rightarrow> json option" where
  "get_prop v name = (case v of JObject kvs \<Rightarrow> map_of kvs name | _ \<Rightarrow> None)"

text \<open>\<^verbatim>\<open>{ ...target, ...source }\<close>: each own property of the source is defined on the copy.\<close>

definition spread :: "(jsstring \<times> json) list \<Rightarrow> json \<Rightarrow> (jsstring \<times> json) list" where
  "spread target source = foldl (\<lambda>obj (k, v). AList.update k v obj) target (own_entries source)"

section \<open>isCompleteJson (lines 106 to 129)\<close>

text \<open>
  The test of line 119 and 120 on a value of the parsed object. \<^verbatim>\<open>Object.values\<close> of a
  parsed JSON object never holds \<^verbatim>\<open>undefined\<close>, so that disjunct has no case here.
\<close>

definition incomplete_value :: "json \<Rightarrow> bool" where
  "incomplete_value v =
     (case v of JNull \<Rightarrow> True | JString s \<Rightarrow> trim s = [] | _ \<Rightarrow> False)"

definition isCompleteJson :: "jsstring \<Rightarrow> exn + bool" where
  "isCompleteJson jsonText =
     try_catch
       (case JSON_parse jsonText of
          Inl e \<Rightarrow> Inl e
        | Inr parsed \<Rightarrow>
            if \<not> is_object parsed then Inr False
            else if get_prop parsed (js ''title'') \<noteq> None
                    \<or> get_prop parsed (js ''description'') \<noteq> None
            then (let hasIncompleteFields = list_ex incomplete_value (map snd (own_entries parsed))
                  in Inr (\<not> hasIncompleteFields))
            else Inr True)
       (Inr False)"

section \<open>Serialisation (\<^verbatim>\<open>JSON.stringify(value, null, 2)\<close>)\<close>

definition hex_digit :: "nat \<Rightarrow> nat" where
  "hex_digit n = (if n < 10 then 48 + n else 87 + n)"

definition unicode_escape :: "nat \<Rightarrow> jsstring" where
  "unicode_escape c =
     [92, 117, hex_digit (c div 4096 mod 16), hex_digit (c div 256 mod 16),
      hex_digit (c div 16 mod 16), hex_digit (c mod 16)]"

definition is_high_surrogate :: "nat \<Rightarrow> bool" where
  "is_high_surrogate c = (55296 \<le> c \<and> c \<le> 56319)"

definition is_low_surrogate :: "nat \<Rightarrow> bool" where
  "is_low_surrogate c = (56320 \<le> c \<and> c \<le> 57343)"

text \<open>
  QuoteJSONString: the short escapes, \<^verbatim>\<open>\u00XX\<close> for the other control characters, and
  \<^verbatim>\<open>\uXXXX\<close> for a surrogate that is not part of a pair.
\<close>

fun quote_chars :: "jsstring \<Rightarrow> jsstring" where
  "quote_chars [] = []"
| "quote_chars (c # cs) =
     (if c = 8 then [92, 98] @ quote_chars cs
      else if c = 9 then [92, 116] @ quote_chars cs
      else if c = 10 then [92, 110] @ quote_chars cs
      else if c = 12 then [92, 102] @ quote_chars cs
      else if c = 13 then [92, 114] @ quote_chars cs
      else if c = 34 then [92, 34] @ quote_chars cs
      else if c = 92 then [92, 92] @ quote_chars cs
      else if c < 32 then unicode_escape c @ quote_chars cs
      else if is_high_surrogate c then
        (case cs of
           [] \<Rightarrow> unicode_escape c
         | d # ds \<Rightarrow>
             if is_low_surrogate d then c # d # quote_chars ds
             else unicode_escape c @ quote_chars cs)
      else if is_low_surrogate c then unicode_escape c @ quote_chars cs
      else c # quote_chars cs)"

definition QuoteJSONString :: "jsstring \<Rightarrow> jsstring" where
  "QuoteJSONString s = 34 # quote_chars s @ [34]"

fun join :: "jsstring \<Rightarrow> jsstring list \<Rightarrow> jsstring" where
  "join sep [] = []"
| "join sep [x] = x"
| "join sep (x # y # ys) = x @ sep @ join sep (y # ys)"

lemma ordered_entries_set: "set (ordered_entries kvs) = set kvs"
  by (auto simp: ordered_entries_def)

lemma size_member_less:
  "(k, v) \<in> set kvs \<Longrightarrow> size v < Suc (size_list (size_prod (\<lambda>_. 0) size) kvs)"
  by (induction kvs) auto

text \<open>
  \<open>num2str\<close> stands for Number::toString on a finite double, the shortest decimal that
  reads back as the same double; it is a parameter of the model. A number that is not
  finite is written \<^verbatim>\<open>null\<close>. \<open>ind\<close> is the current indentation; the gap is two spaces.
\<close>

function stringify :: "(decimal \<Rightarrow> jsstring) \<Rightarrow> jsstring \<Rightarrow> json \<Rightarrow> jsstring" where
  "stringify num2str ind JNull = js ''null''"
| "stringify num2str ind (JBool b) = (if b then js ''true'' else js ''false'')"
| "stringify num2str ind (JNumber d) = (if number_is_finite d then num2str d else js ''null'')"
| "stringify num2str ind (JString s) = QuoteJSONString s"
| "stringify num2str ind (JArray xs) =
     (if xs = [] then js ''[]''
      else [91, 10] @ ind @ js ''  ''
           @ join ([44, 10] @ ind @ js ''  '') (map (stringify num2str (ind @ js ''  '')) xs)
           @ [10] @ ind @ [93])"
| "stringify num2str ind (JObject kvs) =
     (if kvs = [] then js ''{}''
      else [123, 10] @ ind @ js ''  ''
           @ join ([44, 10] @ ind @ js ''  '')
               (map (\<lambda>(k, v). QuoteJSONString k @ [58, 32] @ stringify num2str (ind @ js ''  '') v)
                  (ordered_entries kvs))
           @ [10] @ ind @ [125])"
  by pat_completeness auto
termination
proof (relation "measure (\<lambda>(f, ind, v). size v)", goal_cases)
  case 1
  show ?case by simp
next
  case (2 num2str ind xs x)
  then have "size x < Suc (size_list size xs)"
    by (simp add: less_Suc_eq_le size_list_estimation')
  then show ?case by simp
next
  case (3 num2str ind kvs p k v)
  then have "(k, v) \<in> set kvs"
    by (simp add: ordered_entries_set)
  then show ?case
    using size_member_less [of k v kvs] by simp
qed

text \<open>
  The serialiser calls itself once for every array or object that lies inside another,
  and the engine throws a \<^verbatim>\<open>RangeError\<close> when these calls exceed its stack. The language
  does not say at which depth: the model takes a parameter \<open>spare\<close>, the number of nested
  levels that the engine can serialise beyond the two levels of the recovery task of
  lines 166 to 172 (an object that holds an array).
\<close>

fun depth :: "json \<Rightarrow> nat" where
  "depth (JArray xs) = Suc (foldr max (map depth xs) 0)"
| "depth (JObject kvs) = Suc (foldr max (map (depth \<circ> snd) kvs) 0)"
| "depth v = 0"

definition JSON_stringify :: "(decimal \<Rightarrow> jsstring) \<Rightarrow> nat \<Rightarrow> json \<Rightarrow> exn + jsstring" where
  "JSON_stringify num2str spare v =
     (if depth v \<le> 2 + spare then Inr (stringify num2str [] v) else Inl RangeError)"

section \<open>completeTaskJson (lines 136 to 173)\<close>

text \<open>\<^verbatim>\<open>a || b\<close>: \<open>a\<close> when it is truthy, else \<open>b\<close>. \<^verbatim>\<open>undefined\<close>, \<^verbatim>\<open>null\<close>, \<^verbatim>\<open>false\<close>, zero and
  the empty string are falsy.\<close>

definition truthy :: "json option \<Rightarrow> bool" where
  "truthy a =
     (case a of
        None \<Rightarrow> False
      | Some JNull \<Rightarrow> False
      | Some (JBool b) \<Rightarrow> b
      | Some (JNumber d) \<Rightarrow> \<not> number_is_zero d
      | Some (JString s) \<Rightarrow> s \<noteq> []
      | Some _ \<Rightarrow> True)"

definition or_else :: "json option \<Rightarrow> json \<Rightarrow> json" where
  "or_else a b = (if truthy a then the a else b)"

definition task_defaults :: "json \<Rightarrow> (jsstring \<times> json) list" where
  "task_defaults parsed =
     [(js ''title'', or_else (get_prop parsed (js ''title'')) (JString (js ''Generated Task''))),
      (js ''description'', or_else (get_prop parsed (js ''description''))
          (JString (js ''Task generated from incomplete AI response''))),
      (js ''details'', or_else (get_prop parsed (js ''details''))
          (JString (js ''Please review and update task details''))),
      (js ''testStrategy'', or_else (get_prop parsed (js ''testStrategy''))
          (JString (js ''Manual verification required''))),
      (js ''dependencies'',
          if isArray (get_prop parsed (js ''dependencies''))
          then the (get_prop parsed (js ''dependencies'')) else JArray [])]"

text \<open>Lines 138 to 160: the object that is serialised.\<close>

definition completed_task :: "json \<Rightarrow> (jsstring \<times> json) list" where
  "completed_task parsed0 =
     (let parsed = (if \<not> is_object parsed0 then JObject [] else parsed0);
          defaults = task_defaults parsed;
          completed = spread (spread [] (JObject defaults)) parsed
      in if \<not> isArray (map_of completed (js ''dependencies''))
         then AList.update (js ''dependencies'') (JArray []) completed
         else completed)"

definition recovery_task :: json where
  "recovery_task =
     JObject
       [(js ''title'', JString (js ''Error Recovery Task'')),
        (js ''description'', JString (js ''Task created due to JSON parsing error'')),
        (js ''details'',
           JString (js ''Original AI response could not be parsed. Please review and update.'')),
        (js ''testStrategy'', JString (js ''Manual verification required'')),
        (js ''dependencies'', JArray [])]"

definition completeTaskJson :: "(decimal \<Rightarrow> jsstring) \<Rightarrow> nat \<Rightarrow> jsstring \<Rightarrow> exn + jsstring" where
  "completeTaskJson num2str spare incompleteJson =
     try_catch
       (case JSON_parse incompleteJson of
          Inl e \<Rightarrow> Inl e
        | Inr parsed \<Rightarrow> JSON_stringify num2str spare (JObject (completed_task parsed)))
       (JSON_stringify num2str spare recovery_task)"

section \<open>Evaluation on concrete texts\<close>

lemmas char_defs = js_def is_space_def is_line_terminator_def is_digit_def is_alpha_def
  is_word_def is_ident_start_def is_ident_part_def is_json_space_def startsWith_def endsWith_def

lemmas candidate_defs = candidate_def trim_def strip_decl_def greedy_between_def fence_end_match_def

lemmas parse_defs = JSON_parse_def lex_number_def lex_sign_def lex_int_def lex_frac_def
  lex_exp_def digits_value_def hex_value_def escape_char_def

lemmas repair_defs = repair_def key_fix_def field_fix_def colon_fix_def trailing_comma_def
  key_colon_tail_def colon_tail_def tail_text_def string_fields_def

lemmas convert_defs = convert_def unquoted_key_def

lemmas object_defs = is_object_def isArray_def is_array_index_def ordered_entries_def
  own_entries_def get_prop_def spread_def digits_of.simps

lemmas stringify_defs = JSON_stringify_def QuoteJSONString_def hex_digit_def unicode_escape_def
  is_high_surrogate_def is_low_surrogate_def

lemmas complete_defs = completeTaskJson_def completed_task_def task_defaults_def truthy_def
  or_else_def recovery_task_def try_catch_def

section \<open>The control flow of extractJson\<close>

text \<open>Whether a text passes the strict parse.\<close>

definition valid_json :: "jsstring \<Rightarrow> bool" where
  "valid_json s = (case JSON_parse s of Inl e \<Rightarrow> False | Inr v \<Rightarrow> True)"

lemma valid_json_iff: "valid_json s \<longleftrightarrow> (\<exists>v. JSON_parse s = Inr v)"
  by (simp add: valid_json_def split: sum.splits)

lemma JSON_parse_throws: "JSON_parse s = Inl e \<Longrightarrow> e = SyntaxError"
  by (auto simp: JSON_parse_def split: option.splits list.splits)

lemma not_valid_json_iff: "\<not> valid_json s \<longleftrightarrow> JSON_parse s = Inl SyntaxError"
  by (cases "JSON_parse s") (auto simp: valid_json_def dest: JSON_parse_throws)

lemma extractJson_stages:
  "extractJson text =
     Inr (if valid_json (candidate text) then candidate text
          else if valid_json (repair (candidate text)) then repair (candidate text)
          else if valid_json (convert (candidate text)) then convert (candidate text)
          else text)"
  by (simp add: extractJson_def Let_def try_catch_def parse_then_return_def valid_json_def
           split: sum.splits)

section \<open>Claims about extractJson\<close>

lemma garbage_candidate:
  "candidate (js ''not json at all {{{'') = js ''not json at all {{{''"
  by (simp add: char_defs candidate_defs)

lemma garbage_invalid: "JSON_parse (js ''not json at all {{{'') = Inl SyntaxError"
  by (simp add: char_defs parse_defs)

lemma garbage_repair: "repair (js ''not json at all {{{'') = js ''not json at all {{{''"
  by (simp add: char_defs repair_defs)

lemma garbage_convert: "convert (js ''not json at all {{{'') = js ''not json at all {{{''"
  by (simp add: char_defs convert_defs)

text \<open>
  Claim C8. When the strict parse fails on the candidate text, on the repaired text and
  on the converted text, extractJson returns its argument itself: the text as it was
  passed, not trimmed and not transformed.
\<close>

theorem extractJson_returns_input_when_all_stages_fail:
  assumes "JSON_parse (candidate text) = Inl e1"
    and "JSON_parse (repair (candidate text)) = Inl e2"
    and "JSON_parse (convert (candidate text)) = Inl e3"
  shows "extractJson text = Inr text"
  using assms by (simp add: extractJson_stages valid_json_def)

theorem extractJson_returns_input_when_all_stages_fail_witness:
  "JSON_parse (candidate (js ''not json at all {{{'')) = Inl SyntaxError
   \<and> JSON_parse (repair (candidate (js ''not json at all {{{''))) = Inl SyntaxError
   \<and> JSON_parse (convert (candidate (js ''not json at all {{{''))) = Inl SyntaxError
   \<and> extractJson (js ''not json at all {{{'') = Inr (js ''not json at all {{{'')"
proof -
  have h1: "JSON_parse (candidate (js ''not json at all {{{'')) = Inl SyntaxError"
    by (simp only: garbage_candidate garbage_invalid)
  have h2: "JSON_parse (repair (candidate (js ''not json at all {{{''))) = Inl SyntaxError"
    by (simp only: garbage_candidate garbage_repair garbage_invalid)
  have h3: "JSON_parse (convert (candidate (js ''not json at all {{{''))) = Inl SyntaxError"
    by (simp only: garbage_candidate garbage_convert garbage_invalid)
  from extractJson_returns_input_when_all_stages_fail [OF h1 h2 h3] h1 h2 h3
  show ?thesis by simp
qed

text \<open>
  Claim C9. extractJson always returns, and what it returns is either its argument,
  character for character, or a text that passes the strict parse.
\<close>

theorem extractJson_output_is_input_or_valid:
  "\<exists>r. extractJson text = Inr r \<and> (r = text \<or> (\<exists>v. JSON_parse r = Inr v))"
  by (auto simp: extractJson_stages valid_json_iff)

lemma truncated_candidate: "candidate (js ''{\"title\":\"x\",\"dependencies\":'') = js ''{\"title\":\"x\",\"dependencies\":''"
  by (simp add: char_defs candidate_defs)

lemma truncated_invalid: "JSON_parse (js ''{\"title\":\"x\",\"dependencies\":'') = Inl SyntaxError"
  by (simp add: char_defs parse_defs)

lemma truncated_dependencies_fix:
  "replace_first (key_fix (js ''dependencies'') (js ''[]'') AtEnd) (js ''{\"title\":\"x\",\"dependencies\":'') = js ''{\"title\":\"x\",\"dependencies\": []''"
  by (simp add: char_defs repair_defs)

lemma truncated_repair: "repair (js ''{\"title\":\"x\",\"dependencies\":'') = js ''{\"title\":\"x\",\"dependencies\": []}''"
  by (simp add: char_defs repair_defs)

lemma truncated_fixed_parse:
  "JSON_parse (js ''{\"title\":\"x\",\"dependencies\": []}'') = Inr (JObject [(js ''title'', JString (js ''x'')), (js ''dependencies'', JArray [])])"
  by (simp add: char_defs parse_defs)

lemma truncated_reference_parse:
  "JSON_parse (js ''{\"title\":\"x\",\"dependencies\":[]}'') = Inr (JObject [(js ''title'', JString (js ''x'')), (js ''dependencies'', JArray [])])"
  by (simp add: char_defs parse_defs)

text \<open>
  Claim C7. On the truncated text \<^verbatim>\<open>{"title":"x","dependencies":\<close> the first strict parse
  fails, the repair pass replaces the dangling \<^verbatim>\<open>"dependencies":\<close> at the end of the text
  by \<^verbatim>\<open>"dependencies": []\<close> and appends the closing brace, and extractJson returns the
  repaired text, which parses to the same value as \<^verbatim>\<open>{"title":"x","dependencies":[]}\<close>.
\<close>

theorem extractJson_truncated_dependencies:
  "extractJson (js ''{\"title\":\"x\",\"dependencies\":'') = Inr (js ''{\"title\":\"x\",\"dependencies\": []}'')
   \<and> replace_first (key_fix (js ''dependencies'') (js ''[]'') AtEnd) (js ''{\"title\":\"x\",\"dependencies\":'') = js ''{\"title\":\"x\",\"dependencies\": []''
   \<and> repair (js ''{\"title\":\"x\",\"dependencies\":'') = js ''{\"title\":\"x\",\"dependencies\": []'' @ js ''}''
   \<and> JSON_parse (js ''{\"title\":\"x\",\"dependencies\": []}'') = JSON_parse (js ''{\"title\":\"x\",\"dependencies\":[]}'')
   \<and> JSON_parse (js ''{\"title\":\"x\",\"dependencies\":[]}'') = Inr (JObject [(js ''title'', JString (js ''x'')), (js ''dependencies'', JArray [])])"
proof -
  have "extractJson (js ''{\"title\":\"x\",\"dependencies\":'') = Inr (js ''{\"title\":\"x\",\"dependencies\": []}'')"
    by (simp add: extractJson_stages valid_json_def truncated_candidate truncated_invalid
          truncated_repair truncated_fixed_parse)
  moreover have "repair (js ''{\"title\":\"x\",\"dependencies\":'') = js ''{\"title\":\"x\",\"dependencies\": []'' @ js ''}''"
    by (simp add: truncated_repair) (simp add: js_def)
  ultimately show ?thesis
    by (simp add: truncated_dependencies_fix truncated_fixed_parse truncated_reference_parse)
qed

section \<open>Claims about all three functions\<close>

lemma recovery_task_text: "JSON_stringify num2str spare recovery_task = Inr (js ''{'' @ [10] @ js ''  \"title\": \"Error Recovery Task\",'' @ [10] @ js ''  \"description\": \"Task created due to JSON parsing error\",'' @ [10] @ js ''  \"details\": \"Original AI response could not be parsed. Please review and update.\",'' @ [10] @ js ''  \"testStrategy\": \"Manual verification required\",'' @ [10] @ js ''  \"dependencies\": []'' @ [10] @ js ''}'')"
  by (simp add: char_defs object_defs stringify_defs recovery_task_def digits_value_def)

lemma isCompleteJson_invalid: "\<not> valid_json s \<Longrightarrow> isCompleteJson s = Inr False"
  by (simp add: isCompleteJson_def try_catch_def valid_json_def split: sum.splits)

lemma isCompleteJson_returns: "\<exists>b. isCompleteJson s = Inr b"
  by (cases "JSON_parse s") (auto simp: isCompleteJson_def try_catch_def Let_def)

lemma completeTaskJson_cases:
  "completeTaskJson num2str spare s =
     (case JSON_parse s of
        Inl e \<Rightarrow> JSON_stringify num2str spare recovery_task
      | Inr parsed \<Rightarrow>
          if depth (JObject (completed_task parsed)) \<le> 2 + spare
          then Inr (stringify num2str [] (JObject (completed_task parsed)))
          else JSON_stringify num2str spare recovery_task)"
  by (simp add: completeTaskJson_def try_catch_def JSON_stringify_def split: sum.splits)

lemma completeTaskJson_returns: "\<exists>r. completeTaskJson num2str spare s = Inr r"
  by (simp add: completeTaskJson_cases recovery_task_text split: sum.splits)

text \<open>
  Claim C4. On every text each of the three functions returns a value (\<open>Inr\<close>), never an
  exception (\<open>Inl\<close>). Their failure paths give the fallback values: extractJson returns
  its argument when no stage parses; when the strict parse of the argument fails,
  isCompleteJson returns \<^verbatim>\<open>false\<close> and completeTaskJson returns the serialised recovery
  task, whose text is spelled out; completeTaskJson returns the recovery task as well when
  the serialisation of the completed task throws.
\<close>

theorem no_function_throws:
  "(\<exists>r. extractJson text = Inr r)
   \<and> (\<exists>b. isCompleteJson text = Inr b)
   \<and> (\<exists>r. completeTaskJson num2str spare text = Inr r)
   \<and> (\<not> valid_json (candidate text) \<and> \<not> valid_json (repair (candidate text))
        \<and> \<not> valid_json (convert (candidate text)) \<longrightarrow> extractJson text = Inr text)
   \<and> (\<not> valid_json text \<longrightarrow> isCompleteJson text = Inr False)
   \<and> (\<not> valid_json text \<longrightarrow>
        completeTaskJson num2str spare text = JSON_stringify num2str spare recovery_task)
   \<and> (\<forall>parsed. JSON_parse text = Inr parsed
          \<and> JSON_stringify num2str spare (JObject (completed_task parsed)) = Inl RangeError \<longrightarrow>
        completeTaskJson num2str spare text = JSON_stringify num2str spare recovery_task)
   \<and> JSON_stringify num2str spare recovery_task = Inr (js ''{'' @ [10] @ js ''  \"title\": \"Error Recovery Task\",'' @ [10] @ js ''  \"description\": \"Task created due to JSON parsing error\",'' @ [10] @ js ''  \"details\": \"Original AI response could not be parsed. Please review and update.\",'' @ [10] @ js ''  \"testStrategy\": \"Manual verification required\",'' @ [10] @ js ''  \"dependencies\": []'' @ [10] @ js ''}'')"
proof -
  have c1: "\<exists>r. extractJson text = Inr r"
    by (simp add: extractJson_stages)
  have c4: "\<not> valid_json (candidate text) \<and> \<not> valid_json (repair (candidate text))
        \<and> \<not> valid_json (convert (candidate text)) \<longrightarrow> extractJson text = Inr text"
    by (simp add: extractJson_stages)
  have c5: "\<not> valid_json text \<longrightarrow> isCompleteJson text = Inr False"
    by (simp add: isCompleteJson_invalid)
  have c6: "\<not> valid_json text \<longrightarrow>
          completeTaskJson num2str spare text = JSON_stringify num2str spare recovery_task"
    by (simp add: completeTaskJson_def try_catch_def valid_json_def split: sum.splits)
  have c7: "\<forall>parsed. JSON_parse text = Inr parsed
          \<and> JSON_stringify num2str spare (JObject (completed_task parsed)) = Inl RangeError \<longrightarrow>
        completeTaskJson num2str spare text = JSON_stringify num2str spare recovery_task"
    by (simp add: completeTaskJson_def try_catch_def)
  show ?thesis
    by (intro conjI c1 isCompleteJson_returns completeTaskJson_returns c4 c5 c6 c7
          recovery_task_text)
qed

lemma nested_parse:
  "JSON_parse (js ''{\"a\":[[1]]}'') =
     Inr (JObject [(js ''a'', JArray [JArray [JNumber \<lparr>negative = False, mantissa = 1, exp10 = 0\<rparr>]])])"
  by (simp add: char_defs parse_defs)

lemma nested_completed:
  "completed_task (JObject [(js ''a'', JArray [JArray [JNumber \<lparr>negative = False, mantissa = 1, exp10 = 0\<rparr>]])]) =
     [(js ''title'', JString (js ''Generated Task'')),
      (js ''description'', JString (js ''Task generated from incomplete AI response'')),
      (js ''details'', JString (js ''Please review and update task details'')),
      (js ''testStrategy'', JString (js ''Manual verification required'')),
      (js ''dependencies'', JArray []),
      (js ''a'', JArray [JArray [JNumber \<lparr>negative = False, mantissa = 1, exp10 = 0\<rparr>]])]"
  by (simp add: char_defs object_defs complete_defs digits_value_def)

lemma nested_overflow:
  "JSON_stringify num2str 0 (JObject (completed_task
     (JObject [(js ''a'', JArray [JArray [JNumber \<lparr>negative = False, mantissa = 1, exp10 = 0\<rparr>]])]))) =
   Inl RangeError"
  by (simp only: nested_completed) (simp add: JSON_stringify_def)

theorem no_function_throws_witness:
  "extractJson (js ''not json at all {{{'') = Inr (js ''not json at all {{{'')
   \<and> isCompleteJson (js ''not json at all {{{'') = Inr False
   \<and> completeTaskJson (\<lambda>d. js ''0'') 0 (js ''not json at all {{{'') = Inr (js ''{'' @ [10] @ js ''  \"title\": \"Error Recovery Task\",'' @ [10] @ js ''  \"description\": \"Task created due to JSON parsing error\",'' @ [10] @ js ''  \"details\": \"Original AI response could not be parsed. Please review and update.\",'' @ [10] @ js ''  \"testStrategy\": \"Manual verification required\",'' @ [10] @ js ''  \"dependencies\": []'' @ [10] @ js ''}'')
   \<and> completeTaskJson (\<lambda>d. js ''0'') 0 (js ''{\"a\":[[1]]}'') = Inr (js ''{'' @ [10] @ js ''  \"title\": \"Error Recovery Task\",'' @ [10] @ js ''  \"description\": \"Task created due to JSON parsing error\",'' @ [10] @ js ''  \"details\": \"Original AI response could not be parsed. Please review and update.\",'' @ [10] @ js ''  \"testStrategy\": \"Manual verification required\",'' @ [10] @ js ''  \"dependencies\": []'' @ [10] @ js ''}'')"
proof -
  have h: "\<not> valid_json (js ''not json at all {{{'')"
    by (simp add: valid_json_def garbage_invalid)
  have hc: "\<not> valid_json (candidate (js ''not json at all {{{'')) \<and> \<not> valid_json (repair (candidate (js ''not json at all {{{'')))
        \<and> \<not> valid_json (convert (candidate (js ''not json at all {{{'')))"
    by (simp add: garbage_candidate garbage_repair garbage_convert h)
  have 1: "extractJson (js ''not json at all {{{'') = Inr (js ''not json at all {{{'')
   \<and> isCompleteJson (js ''not json at all {{{'') = Inr False
   \<and> completeTaskJson (\<lambda>d. js ''0'') 0 (js ''not json at all {{{'') = Inr (js ''{'' @ [10] @ js ''  \"title\": \"Error Recovery Task\",'' @ [10] @ js ''  \"description\": \"Task created due to JSON parsing error\",'' @ [10] @ js ''  \"details\": \"Original AI response could not be parsed. Please review and update.\",'' @ [10] @ js ''  \"testStrategy\": \"Manual verification required\",'' @ [10] @ js ''  \"dependencies\": []'' @ [10] @ js ''}'')"
    using no_function_throws [of "js ''not json at all {{{''" "\<lambda>d. js ''0''" 0] h hc
    by simp
  have 2: "completeTaskJson (\<lambda>d. js ''0'') 0 (js ''{\"a\":[[1]]}'') = Inr (js ''{'' @ [10] @ js ''  \"title\": \"Error Recovery Task\",'' @ [10] @ js ''  \"description\": \"Task created due to JSON parsing error\",'' @ [10] @ js ''  \"details\": \"Original AI response could not be parsed. Please review and update.\",'' @ [10] @ js ''  \"testStrategy\": \"Manual verification required\",'' @ [10] @ js ''  \"dependencies\": []'' @ [10] @ js ''}'')"
    using no_function_throws [of "js ''{\"a\":[[1]]}''" "\<lambda>d. js ''0''" 0]
      nested_parse nested_overflow [of "\<lambda>d. js ''0''"]
    by simp
  from 1 2 show ?thesis by simp
qed

section \<open>Claims about completeTaskJson\<close>

lemma empty_title_parse:
  "JSON_parse (js ''{\"title\":\"\"}'') = Inr (JObject [(js ''title'', JString [])])"
  by (simp add: char_defs parse_defs)

lemma empty_title_completed:
  "completed_task (JObject [(js ''title'', JString [])]) =
     [(js ''title'', JString []),
      (js ''description'', JString (js ''Task generated from incomplete AI response'')),
      (js ''details'', JString (js ''Please review and update task details'')),
      (js ''testStrategy'', JString (js ''Manual verification required'')),
      (js ''dependencies'', JArray [])]"
  by (simp add: char_defs object_defs complete_defs digits_value_def)

text \<open>
  Claim C1. The defaults record is built with \<^verbatim>\<open>||\<close>, so a falsy field gets its default
  there; but line 155 spreads the parsed object over the defaults, and a key that is
  present in the parsed object wins whatever its value. On \<^verbatim>\<open>{"title":""}\<close> the returned
  JSON has the empty title, not \<^verbatim>\<open>"Generated Task"\<close>.
\<close>

theorem completeTaskJson_keeps_empty_title:
  "completeTaskJson num2str spare (js ''{\"title\":\"\"}'') = Inr (js ''{'' @ [10] @ js ''  \"title\": \"\",'' @ [10] @ js ''  \"description\": \"Task generated from incomplete AI response\",'' @ [10] @ js ''  \"details\": \"Please review and update task details\",'' @ [10] @ js ''  \"testStrategy\": \"Manual verification required\",'' @ [10] @ js ''  \"dependencies\": []'' @ [10] @ js ''}'')"
  by (simp add: completeTaskJson_cases empty_title_parse empty_title_completed)
     (simp add: char_defs object_defs stringify_defs digits_value_def)

section \<open>Claims about isCompleteJson\<close>

lemma trim_empty_iff: "trim s = [] \<longleftrightarrow> list_all is_space s"
proof
  assume "trim s = []"
  then have a: "\<forall>x\<in>set (dropWhile is_space s). is_space x"
    by (simp add: trim_def)
  have "dropWhile is_space s = []"
  proof (rule ccontr)
    assume "dropWhile is_space s \<noteq> []"
    then have "\<not> is_space (hd (dropWhile is_space s))"
      by (rule hd_dropWhile)
    moreover have "hd (dropWhile is_space s) \<in> set (dropWhile is_space s)"
      using \<open>dropWhile is_space s \<noteq> []\<close> by simp
    ultimately show False using a by blast
  qed
  then show "list_all is_space s"
    by (simp add: list_all_iff)
next
  assume "list_all is_space s"
  then show "trim s = []"
    by (auto simp: trim_def list_all_iff dest: set_dropWhileD)
qed

lemma incomplete_value_iff:
  "incomplete_value x \<longleftrightarrow> x = JNull \<or> (\<exists>str. x = JString str \<and> list_all is_space str)"
  by (cases x) (simp_all add: incomplete_value_def trim_empty_iff)

text \<open>
  Claim C5. isCompleteJson returns \<^verbatim>\<open>false\<close> when the strict parse fails and when the
  parsed value is null or a scalar. On an object that has a \<^verbatim>\<open>title\<close> or a \<^verbatim>\<open>description\<close>
  key, whatever its value, it returns \<^verbatim>\<open>false\<close> exactly when some value of the object is
  null or a string of white space only. On an object with neither key, and on an array,
  it returns \<^verbatim>\<open>true\<close>.
\<close>

theorem isCompleteJson_characterisation:
  "(JSON_parse s = Inl e \<longrightarrow> isCompleteJson s = Inr False)
   \<and> (JSON_parse s = Inr v
        \<and> (v = JNull \<or> (\<exists>b. v = JBool b) \<or> (\<exists>d. v = JNumber d) \<or> (\<exists>str. v = JString str))
        \<longrightarrow> isCompleteJson s = Inr False)
   \<and> (JSON_parse s = Inr (JObject kvs)
        \<and> (js ''title'' \<in> fst ` set kvs \<or> js ''description'' \<in> fst ` set kvs)
        \<longrightarrow> isCompleteJson s =
             Inr (\<not> (\<exists>(k, x) \<in> set kvs.
                       x = JNull \<or> (\<exists>str. x = JString str \<and> list_all is_space str))))
   \<and> (JSON_parse s = Inr (JObject kvs)
        \<and> js ''title'' \<notin> fst ` set kvs \<and> js ''description'' \<notin> fst ` set kvs
        \<longrightarrow> isCompleteJson s = Inr True)
   \<and> (JSON_parse s = Inr (JArray xs) \<longrightarrow> isCompleteJson s = Inr True)"
proof -
  have key: "\<And>k. get_prop (JObject kvs) k \<noteq> None \<longleftrightarrow> k \<in> fst ` set kvs"
    by (simp add: get_prop_def map_of_eq_None_iff)
  have "list_ex incomplete_value (map snd (own_entries (JObject kvs))) \<longleftrightarrow>
      (\<exists>p \<in> set kvs. incomplete_value (snd p))"
    by (simp add: list_ex_iff own_entries_def ordered_entries_set)
  also have "\<dots> \<longleftrightarrow>
      (\<exists>(k, x) \<in> set kvs. x = JNull \<or> (\<exists>str. x = JString str \<and> list_all is_space str))"
    by (simp add: incomplete_value_iff case_prod_unfold)
  finally have vals: "list_ex incomplete_value (map snd (own_entries (JObject kvs))) \<longleftrightarrow>
      (\<exists>(k, x) \<in> set kvs. x = JNull \<or> (\<exists>str. x = JString str \<and> list_all is_space str))" .
  show ?thesis
    using key vals
    by (auto simp: isCompleteJson_def try_catch_def is_object_def Let_def get_prop_def)
qed

lemma task_with_empty_description_parse: "JSON_parse (js ''{\"title\":\"x\",\"description\":\"\"}'') =
    Inr (JObject [(js ''title'', JString (js ''x'')), (js ''description'', JString [])])"
  by (simp add: char_defs parse_defs)

lemma plain_object_parse: "JSON_parse (js ''{\"a\":1}'') =
    Inr (JObject [(js ''a'', JNumber \<lparr>negative = False, mantissa = 1, exp10 = 0\<rparr>)])"
  by (simp add: char_defs parse_defs)

lemma null_parse: "JSON_parse (js ''null'') = Inr JNull"
  by (simp add: char_defs parse_defs)

lemma null_array_parse: "JSON_parse (js ''[null]'') = Inr (JArray [JNull])"
  by (simp add: char_defs parse_defs)

theorem isCompleteJson_characterisation_witness:
  "isCompleteJson (js ''not json at all {{{'') = Inr False
   \<and> isCompleteJson (js ''null'') = Inr False
   \<and> isCompleteJson (js ''{\"title\":\"x\",\"description\":\"\"}'') = Inr False
   \<and> isCompleteJson (js ''{\"a\":1}'') = Inr True
   \<and> isCompleteJson (js ''[null]'') = Inr True"
proof -
  note a = isCompleteJson_characterisation [of "js ''not json at all {{{''" SyntaxError]
  note b = isCompleteJson_characterisation [of "js ''null''" _ JNull]
  note c = isCompleteJson_characterisation
      [of "js ''{\"title\":\"x\",\"description\":\"\"}''" _ _
          "[(js ''title'', JString (js ''x'')), (js ''description'', JString [])]"]
  note d = isCompleteJson_characterisation
      [of "js ''{\"a\":1}''" _ _ "[(js ''a'', JNumber \<lparr>negative = False, mantissa = 1, exp10 = 0\<rparr>)]"]
  note e = isCompleteJson_characterisation [of "js ''[null]''" _ _ _ "[JNull]"]
  have 1: "isCompleteJson (js ''not json at all {{{'') = Inr False"
    using a garbage_invalid by blast
  have 2: "isCompleteJson (js ''null'') = Inr False"
    using b null_parse by blast
  have 3: "isCompleteJson (js ''{\"title\":\"x\",\"description\":\"\"}'') = Inr False"
    using c task_with_empty_description_parse by (simp add: js_def)
  have 4: "isCompleteJson (js ''{\"a\":1}'') = Inr True"
    using d plain_object_parse by (simp add: js_def)
  have 5: "isCompleteJson (js ''[null]'') = Inr True"
    using e null_array_parse by blast
  from 1 2 3 4 5 show ?thesis by simp
qed

section \<open>The merge of completeTaskJson\<close>

subsection \<open>Spreading an object over another\<close>



lemma spread_fold_keys:
  "fst ` set (foldl (\<lambda>obj (k, v). AList.update k v obj) t es) = fst ` set t \<union> fst ` set es"
proof (induction es arbitrary: t)
  case Nil
  show ?case by simp
next
  case (Cons e es)
  have "fst ` set (AList.update (fst e) (snd e) t) = insert (fst e) (fst ` set t)"
    by (simp add: dom_update)
  with Cons [of "AList.update (fst e) (snd e) t"] show ?case
    by (simp add: case_prod_unfold)
qed

subsection \<open>Keys of parsed values\<close>















lemma task_defaults_keys:
  "fst ` set (task_defaults p) =
     {js ''title'', js ''description'', js ''details'', js ''testStrategy'', js ''dependencies''}"
  by (auto simp: task_defaults_def)
















lemma overflow_not_finite:
  "\<not> number_is_finite \<lparr>negative = False, mantissa = 1, exp10 = 400\<rparr>"
  by (simp add: number_is_finite_def)




section \<open>The trailing comma of the repair pass\<close>

text \<open>Whether the pattern of line 66 matches somewhere in the text.\<close>

fun has_trailing_comma :: "jsstring \<Rightarrow> bool" where
  "has_trailing_comma [] = False"
| "has_trailing_comma (c # cs) = (trailing_comma (c # cs) \<noteq> None \<or> has_trailing_comma cs)"

lemma trailing_comma_match:
  assumes "list_all is_space w" "c = 125 \<or> c = 93"
  shows "trailing_comma (44 # w @ c # b) = Some (2 + length w, w @ [c])"
proof -
  have c: "\<not> is_space c" using assms(2) by (auto simp: is_space_def)
  have "takeWhile is_space (w @ c # b) = w"
    using assms(1) c by (simp add: list_all_iff)
  moreover have "dropWhile is_space (w @ c # b) = c # b"
    using assms(1) c by (simp add: list_all_iff)
  ultimately show ?thesis
    using assms(2) by (auto simp: trailing_comma_def startsWith_def)
qed

lemma replace_first_unmatched:
  "\<forall>i < length a. m (drop i (a @ s)) = None \<Longrightarrow> s \<noteq> [] \<Longrightarrow>
     replace_first m (a @ s) = a @ replace_first m s"
proof (induction a)
  case Nil
  show ?case by simp
next
  case (Cons x a)
  from Cons.prems(1) have "m (x # a @ s) = None" by force
  moreover have "\<forall>i < length a. m (drop i (a @ s)) = None"
    using Cons.prems(1) by force
  ultimately show ?case
    using Cons.IH Cons.prems(2) by simp
qed

text \<open>
  What the replacement of line 66 does, having no global flag: it removes the leftmost
  comma that is followed by optional white space and a closing brace or bracket, and
  nothing else; the text after that closing character is kept as it is. A text without
  such a comma is unchanged.
\<close>

lemma trailing_comma_leftmost:
  "(\<not> has_trailing_comma s \<longrightarrow> replace_first trailing_comma s = s)
   \<and> (list_all is_space w \<and> (c = 125 \<or> c = 93)
        \<and> (\<forall>i < length a. trailing_comma (drop i (a @ 44 # w @ c # b)) = None)
        \<longrightarrow> replace_first trailing_comma (a @ 44 # w @ c # b) = a @ w @ c # b)"
proof (intro conjI impI)
  assume "\<not> has_trailing_comma s"
  then show "replace_first trailing_comma s = s"
    by (induction s) (auto simp: trailing_comma_def)
next
  assume h: "list_all is_space w \<and> (c = 125 \<or> c = 93)
        \<and> (\<forall>i < length a. trailing_comma (drop i (a @ 44 # w @ c # b)) = None)"
  then have "replace_first trailing_comma (a @ 44 # w @ c # b)
      = a @ replace_first trailing_comma (44 # w @ c # b)"
    by (intro replace_first_unmatched) simp_all
  also have "replace_first trailing_comma (44 # w @ c # b) = w @ c # b"
    using h by (simp add: trailing_comma_match)
  finally show "replace_first trailing_comma (a @ 44 # w @ c # b) = a @ w @ c # b" .
qed

lemma two_commas_candidate: "candidate (js ''{\"a\":[1,],}'') = js ''{\"a\":[1,],}''"
  by (simp add: char_defs candidate_defs)

lemma two_commas_repair: "repair (js ''{\"a\":[1,],}'') = js ''{\"a\":[1],}''"
  by (simp add: char_defs repair_defs)

lemma two_commas_convert: "convert (js ''{\"a\":[1,],}'') = js ''{\"a\":[1,],}''"
  by (simp add: char_defs convert_defs)

lemma two_commas_invalid:
  "\<not> valid_json (js ''{\"a\":[1,],}'')" "\<not> valid_json (js ''{\"a\":[1],}'')"
  by (simp_all add: valid_json_def char_defs parse_defs)

lemma no_commas_valid: "valid_json (js ''{\"a\":[1]}'')"
  by (simp add: valid_json_def char_defs parse_defs)

text \<open>
  Claim C3. The comment of line 66 reads \<^verbatim>\<open>Remove trailing commas\<close>, and the patterns of the
  fences (lines 15 to 17) and of the conversion (lines 84 and 87) carry the \<^verbatim>\<open>g\<close> flag; the
  pattern of line 66 does not, so the repair pass removes one trailing comma only. On
  \<^verbatim>\<open>{"a":[1,],}\<close>, which is its own candidate, the pass removes the comma before the bracket
  and leaves the comma before the brace: the repaired text \<^verbatim>\<open>{"a":[1],}\<close> still has a
  trailing comma and does not parse, and extractJson returns its argument, although the
  text without the two commas is valid JSON.
\<close>

theorem repair_leaves_second_trailing_comma:
  "candidate (js ''{\"a\":[1,],}'') = js ''{\"a\":[1,],}''
   \<and> repair (js ''{\"a\":[1,],}'') = js ''{\"a\":[1],}''
   \<and> has_trailing_comma (js ''{\"a\":[1],}'')
   \<and> \<not> valid_json (js ''{\"a\":[1],}'')
   \<and> extractJson (js ''{\"a\":[1,],}'') = Inr (js ''{\"a\":[1,],}'')
   \<and> valid_json (js ''{\"a\":[1]}'')"
proof -
  have "has_trailing_comma (js ''{\"a\":[1],}'')"
    by (simp add: char_defs trailing_comma_def)
  moreover have "extractJson (js ''{\"a\":[1,],}'') = Inr (js ''{\"a\":[1,],}'')"
    by (simp only: extractJson_stages two_commas_candidate two_commas_repair
          two_commas_convert two_commas_invalid if_False)
  ultimately show ?thesis
    by (simp only: two_commas_candidate two_commas_repair two_commas_invalid no_commas_valid)
       simp
qed

section \<open>The text of a token\<close>

lemma hex_value_ge: "hex_value h = Some a \<Longrightarrow> 32 \<le> h"
  by (auto simp: hex_value_def split: if_splits)

lemma escape_char_ge: "escape_char e = Some x \<Longrightarrow> 32 \<le> e"
  by (auto simp: escape_char_def split: if_splits)

text \<open>
  A string literal ends with its closing quote, and no character between the quotes is
  below U+0020.
\<close>

lemma lex_string_body:
  "lex_string s = Some (str, rest) \<Longrightarrow> \<exists>body. s = body @ 34 # rest \<and> (\<forall>c\<in>set body. 32 \<le> c)"
proof (induction s arbitrary: str rest rule: length_induct)
  case (1 s)
  note IH = 1(1) [rule_format]
  from 1(2) obtain c cs where s: "s = c # cs"
    by (cases s) auto
  show ?case
  proof (cases "c = 34")
    case True
    with 1(2) s have "cs = rest" by simp
    with True s show ?thesis by (intro exI [of _ "[]"]) simp
  next
    case not_quote: False
    show ?thesis
    proof (cases "c = 92")
      case backslash: True
      with not_quote 1(2) s obtain e es where cs: "cs = e # es"
        by (cases cs) auto
      show ?thesis
      proof (cases "e = 117")
        case u: True
        with not_quote backslash s cs 1(2)
        obtain h1 h2 h3 h4 r0 a b c' d str' where
          es: "es = h1 # h2 # h3 # h4 # r0"
          and hx: "hex_value h1 = Some a" "hex_value h2 = Some b"
                  "hex_value h3 = Some c'" "hex_value h4 = Some d"
          and rec: "lex_string r0 = Some (str', rest)"
          by (auto split: list.splits option.splits)
        have "length r0 < length s" using s cs es by simp
        from IH [OF this rec]
        obtain body where "r0 = body @ 34 # rest" "\<forall>c\<in>set body. 32 \<le> c"
          by auto
        with backslash s cs u es hx show ?thesis
          by (intro exI [of _ "92 # 117 # h1 # h2 # h3 # h4 # body"])
             (auto dest: hex_value_ge)
      next
        case not_u: False
        with not_quote backslash s cs 1(2)
        obtain x str' where esc: "escape_char e = Some x"
          and rec: "lex_string es = Some (str', rest)"
          by (auto split: option.splits)
        have "length es < length s" using s cs by simp
        from IH [OF this rec]
        obtain body where "es = body @ 34 # rest" "\<forall>c\<in>set body. 32 \<le> c"
          by auto
        with backslash s cs esc show ?thesis
          by (intro exI [of _ "92 # e # body"]) (auto dest: escape_char_ge)
      qed
    next
      case not_backslash: False
      with not_quote 1(2) s obtain str' where ge: "\<not> c < 32"
        and rec: "lex_string cs = Some (str', rest)"
        by (auto split: if_splits)
      have "length cs < length s" using s by simp
      from IH [OF this rec]
      obtain body where "cs = body @ 34 # rest" "\<forall>c\<in>set body. 32 \<le> c"
        by auto
      with ge s show ?thesis
        by (intro exI [of _ "c # body"]) auto
    qed
  qed
qed

text \<open>The characters a number literal is made of.\<close>

definition is_number_char :: "nat \<Rightarrow> bool" where
  "is_number_char c = (is_digit c \<or> c = 43 \<or> c = 45 \<or> c = 46 \<or> c = 69 \<or> c = 101)"

lemma digits_number_chars: "\<forall>c\<in>set (takeWhile is_digit s). is_number_char c"
  by (auto simp: is_number_char_def dest: set_takeWhileD)

lemma lex_sign_text:
  "lex_sign s = (neg, r) \<Longrightarrow> \<exists>x. s = x @ r \<and> (\<forall>c\<in>set x. is_number_char c)"
  by (cases s) (auto simp: lex_sign_def is_number_char_def split: if_splits)

lemma lex_int_text:
  assumes "lex_int s = Some (ip, r)"
  shows "\<exists>x. s = x @ r \<and> x \<noteq> [] \<and> (\<forall>c\<in>set x. is_number_char c)"
proof -
  from assms obtain d t where s: "s = d # t" and d: "is_digit d"
    by (cases s) (auto simp: lex_int_def is_digit_def split: if_splits)
  show ?thesis
  proof (cases "d = 48")
    case True
    with assms s have "r = t" by (simp add: lex_int_def)
    with s d show ?thesis
      by (intro exI [of _ "[d]"]) (simp add: is_number_char_def)
  next
    case False
    with assms s d have "r = dropWhile is_digit t" by (simp add: lex_int_def)
    with s d show ?thesis
      using digits_number_chars [of t]
      by (intro exI [of _ "d # takeWhile is_digit t"]) (simp add: is_number_char_def)
  qed
qed

lemma lex_frac_text:
  assumes "lex_frac s = Some (fp, r)"
  shows "\<exists>x. s = x @ r \<and> (\<forall>c\<in>set x. is_number_char c)"
proof (cases "startsWith s 46")
  case True
  then obtain t where s: "s = 46 # t"
    by (cases s) (auto simp: startsWith_def)
  with assms True have "r = dropWhile is_digit t"
    by (auto simp: lex_frac_def split: if_splits)
  with s show ?thesis
    using digits_number_chars [of t]
    by (intro exI [of _ "46 # takeWhile is_digit t"]) (simp add: is_number_char_def)
next
  case False
  with assms have "r = s" by (simp add: lex_frac_def)
  then show ?thesis by (intro exI [of _ "[]"]) simp
qed

lemma lex_exp_text:
  assumes "lex_exp s = Some (e, r)"
  shows "\<exists>x. s = x @ r \<and> (\<forall>c\<in>set x. is_number_char c)"
proof (cases "startsWith s 101 \<or> startsWith s 69")
  case True
  then obtain c t where s: "s = c # t" and c: "c = 101 \<or> c = 69"
    by (cases s) (auto simp: startsWith_def)
  show ?thesis
  proof (cases "startsWith t 45 \<or> startsWith t 43")
    case True
    then obtain g u where t: "t = g # u" and g: "g = 45 \<or> g = 43"
      by (cases t) (auto simp: startsWith_def)
    with assms s c have "r = dropWhile is_digit u"
      by (auto simp: lex_exp_def startsWith_def split: if_splits)
    with s t c g show ?thesis
      using digits_number_chars [of u]
      by (intro exI [of _ "c # g # takeWhile is_digit u"]) (auto simp: is_number_char_def)
  next
    case False
    with assms s c have "r = dropWhile is_digit t"
      by (auto simp: lex_exp_def startsWith_def split: if_splits)
    with s c show ?thesis
      using digits_number_chars [of t]
      by (intro exI [of _ "c # takeWhile is_digit t"]) (auto simp: is_number_char_def)
  qed
next
  case False
  with assms have "r = s" by (simp add: lex_exp_def)
  then show ?thesis by (intro exI [of _ "[]"]) simp
qed

lemma lex_number_text:
  assumes "lex_number s = Some (d, rest)"
  shows "\<exists>x. s = x @ rest \<and> x \<noteq> [] \<and> (\<forall>c\<in>set x. is_number_char c)"
proof -
  from assms obtain neg s1 ip s2 fp s3 e where
    a: "lex_sign s = (neg, s1)" and b: "lex_int s1 = Some (ip, s2)"
    and c: "lex_frac s2 = Some (fp, s3)" and d: "lex_exp s3 = Some (e, rest)"
    by (auto simp: lex_number_def split: prod.splits option.splits)
  from lex_sign_text [OF a] obtain x1 where 1: "s = x1 @ s1" "\<forall>c\<in>set x1. is_number_char c"
    by blast
  from lex_int_text [OF b] obtain x2 where
    2: "s1 = x2 @ s2" "x2 \<noteq> []" "\<forall>c\<in>set x2. is_number_char c"
    by blast
  from lex_frac_text [OF c] obtain x3 where 3: "s2 = x3 @ s3" "\<forall>c\<in>set x3. is_number_char c"
    by blast
  from lex_exp_text [OF d] obtain x4 where 4: "s3 = x4 @ rest" "\<forall>c\<in>set x4. is_number_char c"
    by blast
  from 1 2 3 4 show ?thesis
    by (intro exI [of _ "x1 @ x2 @ x3 @ x4"]) auto
qed


text \<open>
  The text of one lexical element, with the token it stands for (none for white space).
\<close>

definition token_text :: "jsstring \<Rightarrow> token option \<Rightarrow> bool" where
  "token_text x t \<longleftrightarrow>
     (\<exists>c. x = [c] \<and> is_json_space c \<and> t = None)
     \<or> (x = [123] \<and> t = Some TLBrace) \<or> (x = [125] \<and> t = Some TRBrace)
     \<or> (x = [91] \<and> t = Some TLBrack) \<or> (x = [93] \<and> t = Some TRBrack)
     \<or> (x = [58] \<and> t = Some TColon) \<or> (x = [44] \<and> t = Some TComma)
     \<or> (\<exists>body str. x = 34 # body @ [34] \<and> (\<forall>c\<in>set body. 32 \<le> c) \<and> t = Some (TString str))
     \<or> (\<exists>d. x \<noteq> [] \<and> (\<forall>c\<in>set x. is_number_char c) \<and> t = Some (TNumber d))
     \<or> (x = js ''true'' \<and> t = Some TTrue) \<or> (x = js ''false'' \<and> t = Some TFalse)
     \<or> (x = js ''null'' \<and> t = Some TNull)"

lemma prefix_drop: "prefix p s \<Longrightarrow> s = p @ drop (length p) s"
  by (auto simp: prefix_def)

lemma JSON_lex_step:
  assumes "JSON_lex s = Some ts" "s \<noteq> []"
  shows "\<exists>x rest t ts'. s = x @ rest \<and> token_text x t \<and> JSON_lex rest = Some ts'
           \<and> ts = (case t of None \<Rightarrow> ts' | Some tk \<Rightarrow> tk # ts')"
proof -
  from assms(2) obtain c cs where s: "s = c # cs" by (cases s) auto
  note lx = assms(1) [unfolded s]
  consider (space) "is_json_space c"
    | (punct) "\<not> is_json_space c" "c = 123 \<or> c = 125 \<or> c = 91 \<or> c = 93 \<or> c = 58 \<or> c = 44"
    | (quote) "\<not> is_json_space c" "c = 34"
    | (number) "\<not> is_json_space c" "c = 45 \<or> is_digit c"
    | (name) "\<not> is_json_space c" "c \<noteq> 123" "c \<noteq> 125" "c \<noteq> 91" "c \<noteq> 93" "c \<noteq> 58"
        "c \<noteq> 44" "c \<noteq> 34" "\<not> (c = 45 \<or> is_digit c)"
    by blast
  then show ?thesis
  proof cases
    case space
    with lx have "JSON_lex cs = Some ts" by simp
    with space s show ?thesis
      by (intro exI [of _ "[c]"] exI [of _ cs] exI [of _ None] exI [of _ ts])
         (simp add: token_text_def)
  next
    case punct
    with lx obtain ts' tk where r: "JSON_lex cs = Some ts'" "ts = tk # ts'"
      and tk: "token_text [c] (Some tk)"
      by (auto simp: token_text_def)
    with s show ?thesis
      by (intro exI [of _ "[c]"] exI [of _ cs] exI [of _ "Some tk"] exI [of _ ts']) simp
  next
    case quote
    with lx obtain str rest ts' where ls: "lex_string cs = Some (str, rest)"
      and r: "JSON_lex rest = Some ts'" "ts = TString str # ts'"
      by (auto simp: is_json_space_def split: option.splits)
    from lex_string_body [OF ls] obtain body where
      b: "cs = body @ 34 # rest" "\<forall>c\<in>set body. 32 \<le> c" by blast
    then have "token_text (34 # body @ [34]) (Some (TString str))"
      by (simp add: token_text_def)
    with s quote b r show ?thesis
      by (intro exI [of _ "34 # body @ [34]"] exI [of _ rest] exI [of _ "Some (TString str)"]
            exI [of _ ts']) simp
  next
    case number
    then have "c \<noteq> 123 \<and> c \<noteq> 125 \<and> c \<noteq> 91 \<and> c \<noteq> 93 \<and> c \<noteq> 58 \<and> c \<noteq> 44 \<and> c \<noteq> 34"
      by (auto simp: is_digit_def)
    with number lx obtain d rest ts' where ln: "lex_number (c # cs) = Some (d, rest)"
      and r: "JSON_lex rest = Some ts'" "ts = TNumber d # ts'"
      by (auto split: option.splits)
    from lex_number_text [OF ln] obtain x where
      x: "c # cs = x @ rest" "x \<noteq> []" "\<forall>c\<in>set x. is_number_char c" by blast
    then have "token_text x (Some (TNumber d))"
      by (auto simp: token_text_def)
    with s x r show ?thesis
      by (intro exI [of _ x] exI [of _ rest] exI [of _ "Some (TNumber d)"] exI [of _ ts']) simp
  next
    case name
    with lx have "(prefix (js ''true'') (c # cs)
          \<and> (\<exists>ts'. JSON_lex (drop 4 (c # cs)) = Some ts' \<and> ts = TTrue # ts'))
        \<or> (prefix (js ''false'') (c # cs)
          \<and> (\<exists>ts'. JSON_lex (drop 5 (c # cs)) = Some ts' \<and> ts = TFalse # ts'))
        \<or> (prefix (js ''null'') (c # cs)
          \<and> (\<exists>ts'. JSON_lex (drop 4 (c # cs)) = Some ts' \<and> ts = TNull # ts'))"
      by (auto simp del: drop_Cons_numeral split: if_splits)
    then obtain lit tk ts' where p: "prefix lit (c # cs)"
      and r: "JSON_lex (drop (length lit) (c # cs)) = Some ts'" "ts = tk # ts'"
      and tk: "token_text lit (Some tk)"
    proof (elim disjE conjE exE, goal_cases)
      case (1 ts')
      have l: "length (js ''true'') = 4" by (simp add: js_def)
      have t: "token_text (js ''true'') (Some TTrue)" by (simp add: token_text_def)
      show ?case
        by (rule 1(1) [OF 1(2) _ 1(4) t]) (simp only: l 1(3))
    next
      case (2 ts')
      have l: "length (js ''false'') = 5" by (simp add: js_def)
      have t: "token_text (js ''false'') (Some TFalse)" by (simp add: token_text_def)
      show ?case
        by (rule 2(1) [OF 2(2) _ 2(4) t]) (simp only: l 2(3))
    next
      case (3 ts')
      have l: "length (js ''null'') = 4" by (simp add: js_def)
      have t: "token_text (js ''null'') (Some TNull)" by (simp add: token_text_def)
      show ?case
        by (rule 3(1) [OF 3(2) _ 3(4) t]) (simp only: l 3(3))
    qed
    from prefix_drop [OF p] s r tk show ?thesis
      by (intro exI [of _ lit] exI [of _ "drop (length lit) (c # cs)"] exI [of _ "Some tk"]
            exI [of _ ts']) simp
  qed
qed

lemma token_text_nonempty: "token_text x t \<Longrightarrow> x \<noteq> []"
  by (auto simp: token_text_def js_def)


section \<open>Fences in valid JSON\<close>

text \<open>
  \<open>fence_free p s\<close>: no backquote of \<open>s\<close> starts a line or is followed by white space up to
  the end of a line; \<open>p\<close> is the character before \<open>s\<close>.
\<close>

fun fence_free :: "nat \<Rightarrow> jsstring \<Rightarrow> bool" where
  "fence_free p [] = True"
| "fence_free p (c # cs) =
     ((c = 96 \<longrightarrow> \<not> is_line_terminator p \<and> spaces_then_eol cs = None) \<and> fence_free c cs)"

lemma strip_line_start_fence_free:
  assumes "fence_free p s" "bol \<longrightarrow> is_line_terminator p" "fence \<noteq> []" "hd fence = 96"
  shows "strip_line_start fence bol s = s"
  using assms(1,2)
proof (induction s arbitrary: p bol)
  case Nil
  show ?case by simp
next
  case (Cons c cs)
  have "\<not> (bol \<and> prefix fence (c # cs))"
  proof
    assume a: "bol \<and> prefix fence (c # cs)"
    with assms(3,4) have "c = 96" by (cases fence) auto
    with Cons.prems a show False by simp
  qed
  moreover have "strip_line_start fence (is_line_terminator c) cs = cs"
    using Cons.prems by (intro Cons.IH [of c]) simp_all
  ultimately show ?case by auto
qed

lemma strip_line_end_fence_free: "fence_free p s \<Longrightarrow> strip_line_end s = s"
proof (induction s arbitrary: p)
  case Nil
  show ?case by simp
next
  case (Cons c cs)
  have "fence_end_match (c # cs) = None"
  proof (cases "prefix (js ''```'') (c # cs)")
    case True
    then obtain b where b: "c # cs = 96 # 96 # 96 # b"
      by (auto simp: js_def prefix_def)
    with Cons.prems have "spaces_then_eol b = None" by simp
    with b show ?thesis by (simp add: fence_end_match_def)
  next
    case False
    then show ?thesis by (simp add: fence_end_match_def)
  qed
  moreover have "strip_line_end cs = cs"
    using Cons.prems by (intro Cons.IH [of c]) simp
  ultimately show ?case by simp
qed

lemma fence_free_plain:
  "96 \<notin> set x \<Longrightarrow> x \<noteq> [] \<Longrightarrow> fence_free p (x @ y) = fence_free (last x) y"
  by (induction x arbitrary: p) auto

lemma spaces_then_eol_blocked:
  "\<forall>c\<in>set w. \<not> is_line_terminator c \<Longrightarrow> spaces_then_eol (w @ 34 # y) = None"
  by (induction w) (auto simp: is_space_def is_line_terminator_def)

lemma fence_free_body:
  "\<forall>c\<in>set body. \<not> is_line_terminator c \<Longrightarrow> \<not> is_line_terminator q \<Longrightarrow>
     fence_free q (body @ 34 # y) = fence_free 34 y"
proof (induction body arbitrary: q)
  case Nil
  show ?case by simp
next
  case (Cons c body)
  then show ?case
    by (simp add: spaces_then_eol_blocked)
qed

lemma token_text_fence_free:
  assumes "token_text x t" "8232 \<notin> set x" "8233 \<notin> set x" "\<And>q. fence_free q y"
  shows "fence_free p (x @ y)"
proof -
  have "\<not> is_number_char 96"
    by (simp add: is_number_char_def is_digit_def)
  then have "(\<forall>c\<in>set x. is_number_char c) \<Longrightarrow> 96 \<notin> set x"
    by blast
  with assms(1) have "(\<exists>body. x = 34 # body @ [34] \<and> (\<forall>c\<in>set body. 32 \<le> c))
      \<or> (96 \<notin> set x \<and> x \<noteq> [])"
    unfolding token_text_def
    by (elim disjE exE conjE) (auto simp: js_def is_json_space_def)
  then consider (str) body where "x = 34 # body @ [34]" "\<forall>c\<in>set body. 32 \<le> c"
    | (plain) "96 \<notin> set x" "x \<noteq> []"
    by blast
  then show ?thesis
  proof cases
    case str
    with assms(2,3) have "\<forall>c\<in>set body. \<not> is_line_terminator c"
      by (auto simp: is_line_terminator_def)
    moreover have "\<not> is_line_terminator 34"
      by (simp add: is_line_terminator_def)
    ultimately have "fence_free 34 (body @ 34 # y) = fence_free 34 y"
      by (rule fence_free_body)
    with str assms(4) show ?thesis by simp
  next
    case plain
    with assms(4) show ?thesis by (simp add: fence_free_plain)
  qed
qed

lemma JSON_lex_fence_free:
  "JSON_lex s = Some ts \<Longrightarrow> 8232 \<notin> set s \<Longrightarrow> 8233 \<notin> set s \<Longrightarrow> fence_free p s"
proof (induction s arbitrary: ts p rule: length_induct)
  case (1 s)
  show ?case
  proof (cases "s = []")
    case True
    then show ?thesis by simp
  next
    case False
    from JSON_lex_step [OF 1(2) False] obtain x rest t ts' where
      d: "s = x @ rest" "token_text x t" "JSON_lex rest = Some ts'"
      by blast
    have "length rest < length s"
      using d token_text_nonempty [OF d(2)] by simp
    with 1(1) d(3) 1(3,4) d(1) have "\<And>q. fence_free q rest" by auto
    with d 1(3,4) show ?thesis
      by (auto intro: token_text_fence_free)
  qed
qed


section \<open>The last character of valid JSON\<close>

lemma token_text_last:
  assumes "token_text x t"
  shows "last x \<noteq> 59"
    and "\<not> is_space (last x) \<Longrightarrow> \<exists>tk. t = Some tk"
    and "t = Some TRBrace \<Longrightarrow> x = [125]"
    and "t = Some TRBrack \<Longrightarrow> x = [93]"
proof -
  have n: "\<not> is_number_char 59"
    by (simp add: is_number_char_def is_digit_def)
  have "x \<noteq> [] \<Longrightarrow> \<forall>c\<in>set x. is_number_char c \<Longrightarrow> last x \<noteq> 59"
    using n last_in_set by metis
  with assms show "last x \<noteq> 59"
    unfolding token_text_def
    by (elim disjE exE conjE) (auto simp: js_def is_json_space_def)
  show "\<not> is_space (last x) \<Longrightarrow> \<exists>tk. t = Some tk"
    using assms unfolding token_text_def
    by (elim disjE exE conjE) (auto simp: is_json_space_def is_space_def)
  show "t = Some TRBrace \<Longrightarrow> x = [125]"
    using assms by (auto simp: token_text_def)
  show "t = Some TRBrack \<Longrightarrow> x = [93]"
    using assms by (auto simp: token_text_def)
qed

lemma JSON_lex_last:
  "JSON_lex s = Some ts \<Longrightarrow> s \<noteq> [] \<Longrightarrow>
     last s \<noteq> 59
     \<and> (\<not> is_space (last s) \<longrightarrow>
          ts \<noteq> [] \<and> (last ts = TRBrace \<longrightarrow> last s = 125) \<and> (last ts = TRBrack \<longrightarrow> last s = 93))"
proof (induction s arbitrary: ts rule: length_induct)
  case (1 s)
  from JSON_lex_step [OF 1(2) 1(3)] obtain x rest t ts' where
    d: "s = x @ rest" "token_text x t" "JSON_lex rest = Some ts'"
       "ts = (case t of None \<Rightarrow> ts' | Some tk \<Rightarrow> tk # ts')"
    by blast
  note x = token_text_nonempty [OF d(2)]
  show ?case
  proof (cases "rest = []")
    case True
    with d(3) have ts': "ts' = []" by simp
    from True d(1) x have l: "last s = last x" by simp
    show ?thesis
      using token_text_last [OF d(2)] d(4) ts' l
      by (auto split: option.splits)
  next
    case False
    have "length rest < length s" using d(1) x by simp
    with 1(1) d(3) False have IH: "last rest \<noteq> 59
     \<and> (\<not> is_space (last rest) \<longrightarrow>
          ts' \<noteq> [] \<and> (last ts' = TRBrace \<longrightarrow> last rest = 125)
          \<and> (last ts' = TRBrack \<longrightarrow> last rest = 93))"
      by blast
    from False d(1) have l: "last s = last rest" by simp
    show ?thesis
      using IH d(4) l by (auto split: option.splits)
  qed
qed

lemma parse_closing:
  "parse_value ts = Some (v, rest) \<Longrightarrow>
     \<exists>c. ts = c @ rest \<and> c \<noteq> [] \<and> (hd c = TLBrace \<longrightarrow> last c = TRBrace)
          \<and> (hd c = TLBrack \<longrightarrow> last c = TRBrack)"
  "parse_elements acc ts = Some (v, rest) \<Longrightarrow> \<exists>c. ts = c @ rest \<and> c \<noteq> [] \<and> last c = TRBrack"
  "parse_members macc ts = Some (v, rest) \<Longrightarrow> \<exists>c. ts = c @ rest \<and> c \<noteq> [] \<and> last c = TRBrace"
proof (induction ts and acc ts and macc ts arbitrary: v rest and v rest and v rest
       rule: parse_value_parse_elements_parse_members.induct)
  case (12 acc ts)
  from 12(3) obtain w r where pv: "parse_value ts = Some (w, r)"
    by (auto split: option.splits)
  from 12(1) [OF pv] obtain c where c: "ts = c @ r" "c \<noteq> []" by blast
  show ?case
  proof (cases r)
    case Nil
    with 12(3) pv show ?thesis by simp
  next
    case (Cons t r')
    show ?thesis
    proof (cases "t = TComma")
      case True
      with 12(3) pv Cons have "parse_elements (acc @ [w]) r' = Some (v, rest)"
        by simp
      with 12(2) pv Cons True obtain c' where "r' = c' @ rest" "c' \<noteq> []" "last c' = TRBrack"
        by blast
      with c Cons True show ?thesis
        by (intro exI [of _ "c @ TComma # c'"]) simp
    next
      case False
      with 12(3) pv Cons have "t = TRBrack" "rest = r'"
        by (cases t; simp)+
      with c Cons show ?thesis
        by (intro exI [of _ "c @ [TRBrack]"]) simp
    qed
  qed
next
  case (13 acc k ts)
  from 13(3) obtain w r where pv: "parse_value ts = Some (w, r)"
    by (auto split: option.splits)
  from 13(1) [OF pv] obtain c where c: "ts = c @ r" "c \<noteq> []" by blast
  show ?case
  proof (cases r)
    case Nil
    with 13(3) pv show ?thesis by simp
  next
    case (Cons t r')
    show ?thesis
    proof (cases "t = TComma")
      case True
      with 13(3) pv Cons have "parse_members (AList.update k w acc) r' = Some (v, rest)"
        by simp
      with 13(2) pv Cons True obtain c' where "r' = c' @ rest" "c' \<noteq> []" "last c' = TRBrace"
        by blast
      with c Cons True show ?thesis
        by (intro exI [of _ "TString k # TColon # c @ TComma # c'"]) simp
    next
      case False
      with 13(3) pv Cons have "t = TRBrace" "rest = r'"
        by (cases t; simp)+
      with c Cons show ?thesis
        by (intro exI [of _ "TString k # TColon # c @ [TRBrace]"]) simp
    qed
  qed
qed (auto | force)+

section \<open>Texts that extractJson returns as they are\<close>

lemma trim_ends:
  assumes "trim s \<noteq> []"
  shows "\<not> is_space (hd (trim s))" and "\<not> is_space (last (trim s))"
proof -
  let ?d = "dropWhile is_space s"
  let ?e = "dropWhile is_space (rev ?d)"
  from assms have e: "?e \<noteq> []" by (simp add: trim_def)
  then have "\<not> is_space (hd ?e)" by (rule hd_dropWhile)
  with e show "\<not> is_space (last (trim s))"
    by (simp add: trim_def last_rev)
  have d: "?d \<noteq> []"
  proof
    assume "?d = []"
    then have "?e = []" by (metis dropWhile.simps(1) rev.simps(1))
    with e show False by contradiction
  qed
  then have nd: "\<not> is_space (hd ?d)" by (rule hd_dropWhile)
  have "rev ?d = takeWhile is_space (rev ?d) @ ?e" by simp
  then have "?d = rev ?e @ rev (takeWhile is_space (rev ?d))"
    by (metis rev_append rev_rev_ident)
  with e have "hd ?d = hd (rev ?e)" by (metis hd_append2 rev_is_Nil_conv)
  with nd show "\<not> is_space (hd (trim s))"
    by (simp add: trim_def)
qed

lemma trim_bare:
  assumes "s = [] \<or> (\<not> is_space (hd s) \<and> \<not> is_space (last s))"
  shows "trim s = s"
proof (cases "s = []")
  case True
  then show ?thesis by (simp add: trim_def)
next
  case False
  with assms have h: "\<not> is_space (hd s)" and l: "\<not> is_space (last s)" by auto
  from False h have "dropWhile is_space s = s" by (cases s) auto
  moreover from False l have "dropWhile is_space (rev s) = rev s"
    by (cases "rev s") (auto simp: last_rev [symmetric] hd_rev)
  ultimately show ?thesis by (simp add: trim_def)
qed

lemma trim_idem: "trim (trim s) = trim s"
  using trim_ends [of s] by (intro trim_bare) blast

lemma strip_terminator_id:
  "s \<noteq> [] \<Longrightarrow> \<not> is_space (last s) \<Longrightarrow> last s \<noteq> 59 \<Longrightarrow> strip_terminator s = s"
proof (induction s)
  case Nil
  then show ?case by simp
next
  case (Cons c cs)
  show ?case
  proof (cases "cs = []")
    case True
    with Cons.prems show ?thesis by simp
  next
    case False
    with Cons.prems have "\<not> list_all is_space cs"
      by (auto simp: list_all_iff)
    moreover from False Cons have "strip_terminator cs = cs" by simp
    ultimately show ?thesis by simp
  qed
qed

lemma greedy_between_whole:
  assumes "startsWith s opn" "s \<noteq> []" "last s = cls" "opn \<noteq> cls"
  shows "greedy_between opn cls s = Some s"
proof -
  from assms(1) obtain body where s: "s = opn # body"
    by (cases s) (auto simp: startsWith_def)
  with assms(3,4) have b: "body \<noteq> []" "last body = cls" by (auto split: if_splits)
  then have "cls \<in> set body" using last_in_set by metis
  moreover from b have "dropWhile (\<lambda>x. x \<noteq> cls) (rev body) = rev body"
    by (cases "rev body") (auto simp: last_rev [symmetric] hd_rev)
  ultimately show ?thesis
    using s by (simp add: greedy_between_def)
qed

lemma strip_decl_other:
  "\<not> prefix kw s \<Longrightarrow> strip_decl kw s = s"
  by (simp add: strip_decl_def)

lemma JSON_lex_first:
  assumes "JSON_lex (c # cs) = Some ts"
  shows "c \<noteq> 99" "c \<noteq> 108" "c \<noteq> 118"
  using assms by (auto simp: char_defs)

text \<open>
  The greedy matches of lines 26 and 27 keep the whole text: it starts with an opening
  brace, or it has no opening brace with a closing brace after it and either starts
  with an opening bracket or has no opening bracket with a closing bracket after it.
\<close>

definition uncut :: "jsstring \<Rightarrow> bool" where
  "uncut t \<longleftrightarrow>
     startsWith t 123
     \<or> (greedy_between 123 125 t = None \<and> (startsWith t 91 \<or> greedy_between 91 93 t = None))"

text \<open>\<^verbatim>\<open>extractJson(extractJson(s))\<close>\<close>

definition extractJson_twice :: "jsstring \<Rightarrow> exn + jsstring" where
  "extractJson_twice s = (case extractJson s of Inl e \<Rightarrow> Inl e | Inr r \<Rightarrow> extractJson r)"

lemma candidate_bare_valid:
  assumes valid: "valid_json t" and bare: "trim t = t"
    and ls: "8232 \<notin> set t" and ps: "8233 \<notin> set t" and uncut: "uncut t"
  shows "candidate t = t"
proof -
  from valid obtain ts v where lx: "JSON_lex t = Some ts" and pv: "parse_value ts = Some (v, [])"
    by (auto simp: valid_json_def JSON_parse_def split: option.splits list.splits)
  from pv have ts: "ts \<noteq> []" by auto
  with lx have t: "t \<noteq> []" by auto
  with bare trim_ends [of t] have hd: "\<not> is_space (hd t)" and last: "\<not> is_space (last t)"
    by simp_all
  from t obtain c cs where cs: "t = c # cs" by (cases t) auto
  have ff: "fence_free 10 t"
    using lx ls ps by (rule JSON_lex_fence_free)
  have lt: "True \<longrightarrow> is_line_terminator 10"
    by (simp add: is_line_terminator_def)
  have s1: "strip_line_start (js ''```json'') True t = t"
    using ff lt by (rule strip_line_start_fence_free) (simp_all add: js_def)
  have s2: "strip_line_start (js ''```'') True t = t"
    using ff lt by (rule strip_line_start_fence_free) (simp_all add: js_def)
  have s3: "strip_line_end t = t"
    using ff by (rule strip_line_end_fence_free)
  note first = JSON_lex_first [OF lx [unfolded cs]]
  have s4: "strip_decl (js ''const'') t = t" "strip_decl (js ''let'') t = t"
    "strip_decl (js ''var'') t = t"
    using first cs by (auto intro!: strip_decl_other simp: js_def)
  from JSON_lex_last [OF lx t] last
  have l: "last t \<noteq> 59" "last ts = TRBrace \<longrightarrow> last t = 125" "last ts = TRBrack \<longrightarrow> last t = 93"
    by simp_all
  have s5: "strip_terminator t = t"
    using t last l(1) by (rule strip_terminator_id)
  from parse_closing(1) [OF pv]
  have closing: "hd ts = TLBrace \<longrightarrow> last ts = TRBrace" "hd ts = TLBrack \<longrightarrow> last ts = TRBrack"
    by simp_all
  have brace: "greedy_between 123 125 t = Some t" if "startsWith t 123"
  proof -
    from that cs have "c = 123" by (simp add: startsWith_def)
    with lx cs have "hd ts = TLBrace" by (auto simp: is_json_space_def)
    with closing l have "last t = 125" by simp
    with that t show ?thesis by (intro greedy_between_whole) simp_all
  qed
  have bracket: "greedy_between 91 93 t = Some t" if "startsWith t 91"
  proof -
    from that cs have "c = 91" by (simp add: startsWith_def)
    with lx cs have "hd ts = TLBrack" by (auto simp: is_json_space_def)
    with closing l have "last t = 93" by simp
    with that t show ?thesis by (intro greedy_between_whole) simp_all
  qed
  from uncut brace bracket
  have s6: "(case greedy_between 123 125 t of
               Some m \<Rightarrow> m
             | None \<Rightarrow> (case greedy_between 91 93 t of Some m \<Rightarrow> m | None \<Rightarrow> t)) = t"
    by (auto simp: uncut_def)
  show ?thesis
    unfolding candidate_def Let_def bare s1 s2 s3 s4 s5 by (rule s6)
qed

lemma extractJson_bare_valid:
  assumes "valid_json t" "trim t = t" "8232 \<notin> set t" "8233 \<notin> set t" "uncut t"
  shows "extractJson t = Inr t"
  using assms by (simp add: extractJson_stages candidate_bare_valid)

lemma candidate_trim: "candidate (trim s) = candidate s"
  by (simp add: candidate_def trim_idem)

lemma extractJson_trim_valid:
  assumes "valid_json (trim s)" "8232 \<notin> set (trim s)" "8233 \<notin> set (trim s)" "uncut (trim s)"
  shows "extractJson s = Inr (trim s)"
proof -
  have "candidate (trim s) = trim s"
    using assms by (intro candidate_bare_valid) (simp_all add: trim_idem)
  then have "candidate s = trim s" by (simp add: candidate_trim)
  with assms(1) show ?thesis by (simp add: extractJson_stages)
qed

text \<open>
  Claim C2, amended. When the trimmed input is valid JSON, contains no line separator
  U+2028 or paragraph separator U+2029, and is kept whole by the greedy matches (it
  starts with an opening brace, or has no brace pair and either starts with an opening
  bracket or has no bracket pair), extractJson returns the trimmed input.
\<close>

theorem extractJson_valid_input:
  assumes "valid_json (trim s)" "8232 \<notin> set (trim s)" "8233 \<notin> set (trim s)" "uncut (trim s)"
  shows "extractJson s = Inr (trim s)"
  using assms by (rule extractJson_trim_valid)

lemma padded_trim: "trim ((js ''  {\"title\":\"x\"}'' @ [10])) = js ''{\"title\":\"x\"}''"
  by (simp add: trim_def char_defs)

lemma title_object_valid: "valid_json (js ''{\"title\":\"x\"}'')"
  by (simp add: valid_json_def char_defs parse_defs)

lemma title_object_uncut: "uncut (js ''{\"title\":\"x\"}'')"
  by (simp add: uncut_def char_defs)

lemma title_object_plain: "8232 \<notin> set (js ''{\"title\":\"x\"}'') \<and> 8233 \<notin> set (js ''{\"title\":\"x\"}'')"
  by (simp add: js_def)

theorem extractJson_valid_input_witness:
  "valid_json (trim ((js ''  {\"title\":\"x\"}'' @ [10]))) \<and> uncut (trim ((js ''  {\"title\":\"x\"}'' @ [10])))
   \<and> extractJson ((js ''  {\"title\":\"x\"}'' @ [10])) = Inr (js ''{\"title\":\"x\"}'')"
proof -
  have 1: "valid_json (trim ((js ''  {\"title\":\"x\"}'' @ [10])))"
    by (simp only: padded_trim title_object_valid)
  have 2: "8232 \<notin> set (trim ((js ''  {\"title\":\"x\"}'' @ [10])))" "8233 \<notin> set (trim ((js ''  {\"title\":\"x\"}'' @ [10])))"
    using title_object_plain by (simp_all add: padded_trim)
  have 3: "uncut (trim ((js ''  {\"title\":\"x\"}'' @ [10])))"
    by (simp only: padded_trim title_object_uncut)
  from extractJson_valid_input [OF 1 2 3] 1 3 show ?thesis
    by (simp only: padded_trim)
qed

text \<open>
  As stated the claim fails: the valid JSON text \<^verbatim>\<open>[{"a":1}]\<close> is cut by the greedy object
  match of line 26, and extractJson returns \<^verbatim>\<open>{"a":1}\<close>.
\<close>

lemma array_of_object_valid: "valid_json (js ''[{\"a\":1}]'')"
  by (simp add: valid_json_def char_defs parse_defs)

lemma array_of_object_candidate: "candidate (js ''[{\"a\":1}]'') = js ''{\"a\":1}''"
  by (simp add: char_defs candidate_defs)

lemma inner_object_valid: "valid_json (js ''{\"a\":1}'')"
  by (simp add: valid_json_def char_defs parse_defs)

theorem extractJson_cuts_valid_array:
  "valid_json (js ''[{\"a\":1}]'') \<and> trim (js ''[{\"a\":1}]'') = js ''[{\"a\":1}]''
   \<and> extractJson (js ''[{\"a\":1}]'') = Inr (js ''{\"a\":1}'')"
proof -
  have "trim (js ''[{\"a\":1}]'') = js ''[{\"a\":1}]''"
    by (simp add: trim_def char_defs)
  moreover have "extractJson (js ''[{\"a\":1}]'') = Inr (js ''{\"a\":1}'')"
    by (simp add: extractJson_stages array_of_object_candidate inner_object_valid)
  ultimately show ?thesis
    using array_of_object_valid by simp
qed

section \<open>What the stages keep of a text\<close>

subsection \<open>Pairs of an opening and a closing character\<close>

fun pairs :: "nat \<Rightarrow> nat \<Rightarrow> jsstring \<Rightarrow> bool" where
  "pairs opn cls [] = False"
| "pairs opn cls (x # xs) = (if x = opn then cls \<in> set xs else pairs opn cls xs)"

lemma greedy_between_None: "greedy_between opn cls s = None \<longleftrightarrow> \<not> pairs opn cls s"
  by (induction s) (auto simp: greedy_between_def)

lemma pairs_closing: "pairs opn cls s \<Longrightarrow> cls \<in> set s"
  by (induction s) (auto split: if_splits)

lemma pairs_append1: "pairs opn cls m \<Longrightarrow> pairs opn cls (m @ b)"
  by (induction m) (auto split: if_splits)

lemma pairs_append2: "pairs opn cls m \<Longrightarrow> pairs opn cls (a @ m)"
  by (induction a) (auto dest: pairs_closing)

lemma pairs_filter:
  "P opn \<Longrightarrow> P cls \<Longrightarrow> pairs opn cls (filter P s) = pairs opn cls s"
  by (induction s) auto

lemma pairs_map:
  "(\<And>x. f x = opn \<longleftrightarrow> x = opn) \<Longrightarrow> (\<And>x. f x = cls \<longleftrightarrow> x = cls) \<Longrightarrow>
     pairs opn cls (map f s) = pairs opn cls s"
proof -
  assume o: "\<And>x. f x = opn \<longleftrightarrow> x = opn" and c: "\<And>x. f x = cls \<longleftrightarrow> x = cls"
  have fc: "f cls = cls" using c [of cls] by simp
  have m: "cls \<in> set (map f xs) \<longleftrightarrow> cls \<in> set xs" for xs
  proof
    assume "cls \<in> set (map f xs)"
    then obtain x where "x \<in> set xs" "f x = cls" by auto
    with c show "cls \<in> set xs" by simp
  next
    assume "cls \<in> set xs"
    with fc show "cls \<in> set (map f xs)" by force
  qed
  show ?thesis
    using o m by (induction s) simp_all
qed

lemma greedy_between_Some:
  assumes "greedy_between opn cls s = Some m"
  shows "startsWith m opn" and "\<exists>a b. s = a @ m @ b"
proof -
  from assms obtain c body where d: "dropWhile (\<lambda>c. c \<noteq> opn) s = c # body"
    and m: "m = c # rev (dropWhile (\<lambda>x. x \<noteq> cls) (rev body))"
    by (auto simp: greedy_between_def split: list.splits if_splits)
  from d have "dropWhile (\<lambda>c. c \<noteq> opn) s \<noteq> []" by simp
  from hd_dropWhile [OF this] d have c: "c = opn" by simp
  with m show "startsWith m opn" by (simp add: startsWith_def)
  have "rev body = takeWhile (\<lambda>x. x \<noteq> cls) (rev body) @ dropWhile (\<lambda>x. x \<noteq> cls) (rev body)"
    by simp
  then have "rev (rev body) = rev (takeWhile (\<lambda>x. x \<noteq> cls) (rev body)
                      @ dropWhile (\<lambda>x. x \<noteq> cls) (rev body))"
    by (rule arg_cong)
  then have "body = rev (dropWhile (\<lambda>x. x \<noteq> cls) (rev body))
                      @ rev (takeWhile (\<lambda>x. x \<noteq> cls) (rev body))"
    by (simp only: rev_append rev_rev_ident)
  moreover have "s = takeWhile (\<lambda>c. c \<noteq> opn) s @ dropWhile (\<lambda>c. c \<noteq> opn) s"
    by simp
  then have "s = takeWhile (\<lambda>c. c \<noteq> opn) s @ c # body"
    by (simp only: d)
  ultimately have "s = takeWhile (\<lambda>c. c \<noteq> opn) s @ m
                      @ rev (takeWhile (\<lambda>x. x \<noteq> cls) (rev body))"
    using m by simp
  then show "\<exists>a b. s = a @ m @ b" by blast
qed

lemma uncut_pairs:
  "uncut t \<longleftrightarrow>
     startsWith t 123 \<or> (\<not> pairs 123 125 t \<and> (startsWith t 91 \<or> \<not> pairs 91 93 t))"
  by (simp add: uncut_def greedy_between_None)

lemma candidate_uncut: "uncut (candidate s)"
proof -
  obtain j where c: "candidate s =
      (case greedy_between 123 125 j of
         Some m \<Rightarrow> m
       | None \<Rightarrow> (case greedy_between 91 93 j of Some m \<Rightarrow> m | None \<Rightarrow> j))"
    by (simp add: candidate_def Let_def)
  show ?thesis
  proof (cases "greedy_between 123 125 j")
    case (Some m)
    with c greedy_between_Some(1) [OF Some] show ?thesis
      by (simp add: uncut_def)
  next
    case None
    then have np: "\<not> pairs 123 125 j" by (simp add: greedy_between_None)
    show ?thesis
    proof (cases "greedy_between 91 93 j")
      case n: None
      with None c show ?thesis by (simp add: uncut_def)
    next
      case (Some m)
      from greedy_between_Some [OF Some] obtain a b where
        m: "startsWith m 91" "j = a @ m @ b" by blast
      have "pairs 123 125 m \<Longrightarrow> pairs 123 125 j"
        unfolding m(2) by (intro pairs_append2 pairs_append1)
      with np have "\<not> pairs 123 125 m" by blast
      with None Some c m(1) show ?thesis
        by (simp add: uncut_pairs)
    qed
  qed
qed

subsection \<open>A key that ends in \<open>s\<close>, before its colon\<close>

text \<open>
  An automaton for \<^verbatim>\<open>s"\s*:\<close>: state 1 after an \<open>s\<close>, state 2 after the quote that follows
  it and the white space after that quote, state 3 once the colon has been read.
\<close>

definition vstep :: "nat \<Rightarrow> nat \<Rightarrow> nat" where
  "vstep q c =
     (if q = 3 then 3
      else if q = 2 \<and> c = 58 then 3
      else if c = 115 then 1
      else if q = 1 \<and> c = 34 then 2
      else if q = 2 \<and> is_space c then 2
      else 0)"

definition s_key_colon :: "jsstring \<Rightarrow> bool" where
  "s_key_colon t \<longleftrightarrow> foldl vstep 0 t = 3"

lemma vstep_done [simp]: "foldl vstep 3 s = 3"
  by (induction s) (simp_all add: vstep_def)

lemma vstep_spaces:
  assumes "list_all is_space w" "q \<noteq> 1"
  shows "foldl vstep q w = (if q = 2 \<or> q = 3 then q else if w = [] then q else 0)"
  using assms
proof (induction w arbitrary: q)
  case Nil
  show ?case by simp
next
  case (Cons c w)
  from Cons.prems have c: "is_space c" "c \<noteq> 58" "c \<noteq> 115" "c \<noteq> 34"
    by (auto simp: is_space_def)
  have "vstep q c = (if q = 2 \<or> q = 3 then q else 0)"
    using c Cons.prems(2) by (simp add: vstep_def)
  with Cons.IH [of "vstep q c"] Cons.prems(1) show ?case
    by auto
qed

lemma vstep_spaces_1:
  assumes "list_all is_space w"
  shows "foldl vstep 1 w = (if w = [] then 1 else 0)"
proof (cases w)
  case Nil
  then show ?thesis by simp
next
  case (Cons c w')
  with assms have c: "is_space c" "c \<noteq> 58" "c \<noteq> 115" "c \<noteq> 34"
    by (auto simp: is_space_def)
  then have "vstep 1 c = 0" by (simp add: vstep_def)
  with Cons assms vstep_spaces [of w' 0] show ?thesis by simp
qed

lemma vstep_quote: "vstep q 34 = 0 \<or> vstep q 34 = 2 \<or> vstep q 34 = 3"
  by (simp add: vstep_def is_space_def)

text \<open>
  The replacements of lines 46 to 63 rewrite a key (or nothing), white space, a colon,
  white space and the tail into the key, the colon, a space, the value and the tail. The
  automaton is in the same state after both.
\<close>

lemma vstep_colon_edit:
  assumes w: "list_all is_space w1" "list_all is_space w2"
    and k: "K = [] \<longrightarrow> w1 = []" "K \<noteq> [] \<longrightarrow> last K = 34"
    and t: "T = [] \<or> T = [125] \<or> T = [44]"
    and v: "val = [34, 34] \<or> val = [91, 93]"
  shows "foldl vstep q (K @ w1 @ 58 # w2 @ T) = foldl vstep q (K @ [58, 32] @ val @ T)"
proof -
  define q' where "q' = foldl vstep q K"
  have q': "K \<noteq> [] \<Longrightarrow> q' = 0 \<or> q' = 2 \<or> q' = 3"
  proof -
    assume "K \<noteq> []"
    with k(2) have "K = butlast K @ [34]" by (metis append_butlast_last_id)
    then have "q' = vstep (foldl vstep q (butlast K)) 34"
      unfolding q'_def by (metis foldl_append foldl_Cons foldl_Nil)
    then show ?thesis using vstep_quote by metis
  qed
  have a: "foldl vstep q' (w1 @ [58]) = vstep q' 58"
  proof (cases "K = []")
    case True
    with k(1) show ?thesis by simp
  next
    case False
    from q' [OF False] have "q' \<noteq> 1" "foldl vstep q' w1 = q'"
      using vstep_spaces [OF w(1), of q'] by auto
    then show ?thesis by simp
  qed
  define p where "p = vstep q' 58"
  have p: "p = 0 \<or> p = 3"
    by (simp add: p_def vstep_def is_space_def)
  have t0: "foldl vstep 0 T = 0"
    using t by (auto simp: vstep_def is_space_def)
  have v0: "foldl vstep 0 val = 0"
    using v by (auto simp: vstep_def is_space_def)
  have s0: "vstep 0 32 = 0"
    by (simp add: vstep_def is_space_def)
  have w0: "foldl vstep 0 w2 = 0"
    using vstep_spaces [OF w(2), of 0] by simp
  have l: "foldl vstep p (w2 @ T) = p"
    using p t0 w0 by auto
  have s3: "vstep 3 32 = 3"
    by (simp add: vstep_def)
  have r: "foldl vstep p (32 # val @ T) = p"
    using p t0 v0 s0 s3 by auto
  have "foldl vstep q (K @ w1 @ 58 # w2 @ T) = foldl vstep (foldl vstep q' (w1 @ [58])) (w2 @ T)"
    by (simp add: q'_def)
  also have "\<dots> = p" by (simp only: a l p_def [symmetric])
  also have "p = foldl vstep (vstep q' 58) (32 # val @ T)"
    by (simp only: r p_def [symmetric])
  also have "\<dots> = foldl vstep q (K @ [58, 32] @ val @ T)"
    by (simp add: q'_def)
  finally show ?thesis .
qed

lemma vstep_comma_edit:
  assumes "list_all is_space w" "c = 125 \<or> c = 93"
  shows "foldl vstep q (44 # w @ [c]) = foldl vstep q (w @ [c])"
proof -
  have c: "vstep p c = (if p = 3 then 3 else 0)" for p
    using assms(2) by (auto simp: vstep_def is_space_def)
  have m: "vstep q 44 = (if q = 3 then 3 else 0)"
    by (simp add: vstep_def is_space_def)
  have l: "foldl vstep q (44 # w @ [c]) = (if q = 3 then 3 else 0)"
    using vstep_spaces [OF assms(1), of 0] by (simp add: m c)
  have "foldl vstep q w = 3 \<longleftrightarrow> q = 3"
  proof (cases "q = 1")
    case True
    then show ?thesis using vstep_spaces_1 [OF assms(1)] by simp
  next
    case False
    then show ?thesis using vstep_spaces [OF assms(1), of q] by auto
  qed
  then have "foldl vstep q (w @ [c]) = (if q = 3 then 3 else 0)"
    by (simp add: c)
  with l show ?thesis by simp
qed

text \<open>A key that ends in \<open>s\<close>, white space and a colon: the automaton accepts.\<close>

lemma vstep_fired:
  assumes "list_all is_space w1"
  shows "foldl vstep q (k @ [115, 34] @ w1 @ 58 # r) = 3"
proof -
  define q1 where "q1 = vstep (foldl vstep q k) 115"
  have "q1 = 1 \<or> q1 = 3" by (simp add: q1_def vstep_def)
  then have "vstep q1 34 = 2 \<or> vstep q1 34 = 3"
    by (auto simp: vstep_def)
  then have "foldl vstep (vstep q1 34) w1 = 2 \<or> foldl vstep (vstep q1 34) w1 = 3"
    using vstep_spaces [OF assms, of "vstep q1 34"] by auto
  then have "vstep (foldl vstep (vstep q1 34) w1) 58 = 3"
    by (auto simp: vstep_def)
  then show ?thesis
    by (simp add: q1_def)
qed

lemma s_key_colon_edit:
  assumes "\<And>q. foldl vstep q a = foldl vstep q b"
  shows "s_key_colon (pre @ a @ post) = s_key_colon (pre @ b @ post)"
  by (simp add: s_key_colon_def assms)

subsection \<open>The shape of one replacement\<close>

lemma replace_first_cases:
  "replace_first m t = t
   \<or> (\<exists>pre rest n rep. t = pre @ rest \<and> m rest = Some (n, rep)
         \<and> replace_first m t = pre @ rep @ drop n rest)"
proof (induction t)
  case Nil
  show ?case by (cases "m []") auto
next
  case (Cons c cs)
  show ?case
  proof (cases "m (c # cs)")
    case None
    from Cons show ?thesis
    proof
      assume "replace_first m cs = cs"
      with None show ?thesis by simp
    next
      assume "\<exists>pre rest n rep. cs = pre @ rest \<and> m rest = Some (n, rep)
         \<and> replace_first m cs = pre @ rep @ drop n rest"
      then obtain pre rest n rep where "cs = pre @ rest" "m rest = Some (n, rep)"
        "replace_first m cs = pre @ rep @ drop n rest" by blast
      with None have "c # cs = (c # pre) @ rest \<and> m rest = Some (n, rep)
         \<and> replace_first m (c # cs) = (c # pre) @ rep @ drop n rest" by simp
      then show ?thesis by blast
    qed
  next
    case (Some a)
    obtain n rep where a: "a = (n, rep)" by (cases a)
    with Some have "c # cs = [] @ (c # cs) \<and> m (c # cs) = Some (n, rep)
         \<and> replace_first m (c # cs) = [] @ rep @ drop n (c # cs)" by simp
    then show ?thesis by blast
  qed
qed

lemma colon_tail_shape:
  assumes "colon_tail tt s = Some n"
  shows "\<exists>w post. s = 58 # w @ tail_text tt @ post \<and> list_all is_space w \<and> drop n s = post"
proof -
  from assms obtain r where s: "s = 58 # r"
    by (cases s) (auto simp: colon_tail_def split: if_splits)
  show ?thesis
  proof (cases tt)
    case AtEnd
    with assms s have d: "dropWhile is_space r = []" and n: "n = 1 + length r"
      by (auto simp: colon_tail_def split: if_splits)
    from d have "list_all is_space r"
      by (simp add: list_all_iff)
    with s n AtEnd show ?thesis
      by (intro exI [of _ r] exI [of _ "[]"]) (simp add: tail_text_def)
  next
    case (Before x)
    with assms s have st: "startsWith (dropWhile is_space r) x"
      and n: "n = 2 + length (takeWhile is_space r)"
      by (auto simp: colon_tail_def split: if_splits)
    from st obtain post where d: "dropWhile is_space r = x # post"
      by (cases "dropWhile is_space r") (auto simp: startsWith_def)
    have "r = takeWhile is_space r @ dropWhile is_space r" by simp
    then have r: "r = takeWhile is_space r @ x # post" by (simp only: d)
    have w: "list_all is_space (takeWhile is_space r)"
      by (simp add: list_all_iff) (meson set_takeWhileD)
    have "drop n s = drop (Suc (length (takeWhile is_space r))) (takeWhile is_space r @ x # post)"
      using s n r by simp
    then have "drop n s = post" by simp
    with s r w Before show ?thesis
      by (intro exI [of _ "takeWhile is_space r"] exI [of _ post]) (simp add: tail_text_def)
  qed
qed

lemma key_colon_tail_shape:
  assumes "key_colon_tail name tt s = Some n"
  shows "\<exists>w1 w2 post. s = (34 # name @ [34]) @ w1 @ 58 # w2 @ tail_text tt @ post
           \<and> list_all is_space w1 \<and> list_all is_space w2 \<and> drop n s = post"
proof -
  let ?q = "34 # name @ [34]"
  let ?r = "drop (length ?q) s"
  from assms have p: "prefix ?q s"
    by (auto simp: key_colon_tail_def Let_def split: if_splits)
  then have s: "s = ?q @ ?r" by (rule prefix_drop)
  from assms p obtain n' where ct: "colon_tail tt (dropWhile is_space ?r) = Some n'"
    and n: "n = length ?q + length (takeWhile is_space ?r) + n'"
    by (auto simp: key_colon_tail_def Let_def)
  from colon_tail_shape [OF ct] obtain w2 post where
    d: "dropWhile is_space ?r = 58 # w2 @ tail_text tt @ post"
    and w2: "list_all is_space w2" and post: "drop n' (dropWhile is_space ?r) = post"
    by blast
  have w1: "list_all is_space (takeWhile is_space ?r)"
    by (simp add: list_all_iff) (meson set_takeWhileD)
  have "?r = takeWhile is_space ?r @ dropWhile is_space ?r" by simp
  with s have s': "s = ?q @ takeWhile is_space ?r @ dropWhile is_space ?r" by simp
  have "drop n s = drop n (?q @ takeWhile is_space ?r @ dropWhile is_space ?r)"
    using s' by simp
  also have "\<dots> = drop n' (dropWhile is_space ?r)"
    unfolding n by (simp del: append_Cons takeWhile_dropWhile_id)
  finally have dn: "drop n s = post" using post by simp
  have "s = ?q @ takeWhile is_space ?r @ 58 # w2 @ tail_text tt @ post"
    unfolding d [symmetric] by (rule s')
  with w1 w2 dn show ?thesis by blast
qed

text \<open>
  One replacement of lines 46 to 63: a key in quotes (or nothing), white space, a colon,
  white space and the tail become the key, a colon, a space, the value and the tail.
\<close>

definition colon_edit :: "jsstring \<Rightarrow> jsstring \<Rightarrow> jsstring \<Rightarrow> jsstring \<Rightarrow> bool" where
  "colon_edit K val t t' \<longleftrightarrow>
     (\<exists>pre w1 w2 T post.
        t = pre @ K @ w1 @ 58 # w2 @ T @ post \<and> t' = pre @ K @ [58, 32] @ val @ T @ post
        \<and> list_all is_space w1 \<and> list_all is_space w2 \<and> (K = [] \<longrightarrow> w1 = [])
        \<and> (T = [] \<or> T = [125] \<or> T = [44]))"

definition comma_edit :: "jsstring \<Rightarrow> jsstring \<Rightarrow> bool" where
  "comma_edit t t' \<longleftrightarrow>
     (\<exists>pre w c post. t = pre @ 44 # w @ [c] @ post \<and> t' = pre @ w @ [c] @ post
        \<and> list_all is_space w \<and> (c = 125 \<or> c = 93))"

lemma tail_texts:
  "tt = AtEnd \<or> tt = Before 125 \<or> tt = Before 44 \<Longrightarrow>
     tail_text tt = [] \<or> tail_text tt = [125] \<or> tail_text tt = [44]"
  by (auto simp: tail_text_def)

lemma key_fix_step:
  assumes "tt = AtEnd \<or> tt = Before 125 \<or> tt = Before 44"
  shows "replace_first (key_fix name val tt) t = t
         \<or> colon_edit (34 # name @ [34]) val t (replace_first (key_fix name val tt) t)"
proof -
  let ?m = "key_fix name val tt"
  from replace_first_cases [of ?m t] show ?thesis
  proof
    assume "replace_first ?m t = t"
    then show ?thesis by simp
  next
    assume "\<exists>pre rest n rep. t = pre @ rest \<and> ?m rest = Some (n, rep)
         \<and> replace_first ?m t = pre @ rep @ drop n rest"
    then obtain pre rest n rep where t: "t = pre @ rest" and m: "?m rest = Some (n, rep)"
      and r: "replace_first ?m t = pre @ rep @ drop n rest" by blast
    from m have k: "key_colon_tail name tt rest = Some n"
      and rep: "rep = (34 # name @ [34]) @ [58, 32] @ val @ tail_text tt"
      by (auto simp: key_fix_def js_def)
    from key_colon_tail_shape [OF k] obtain w1 w2 post where
      rest: "rest = (34 # name @ [34]) @ w1 @ 58 # w2 @ tail_text tt @ post"
      and w: "list_all is_space w1" "list_all is_space w2" and d: "drop n rest = post"
      by blast
    have "t = pre @ (34 # name @ [34]) @ w1 @ 58 # w2 @ tail_text tt @ post
        \<and> replace_first ?m t = pre @ (34 # name @ [34]) @ [58, 32] @ val @ tail_text tt @ post
        \<and> list_all is_space w1 \<and> list_all is_space w2 \<and> (34 # name @ [34] = [] \<longrightarrow> w1 = [])
        \<and> (tail_text tt = [] \<or> tail_text tt = [125] \<or> tail_text tt = [44])"
      using t rest r rep d w tail_texts [OF assms] by simp
    then have "colon_edit (34 # name @ [34]) val t (replace_first ?m t)"
      unfolding colon_edit_def by blast
    then show ?thesis by simp
  qed
qed

lemma field_fix_step:
  assumes "tt = AtEnd \<or> tt = Before 125 \<or> tt = Before 44"
  shows "replace_first (field_fix tt) t = t
         \<or> (\<exists>name. colon_edit (34 # name @ [34]) [34, 34] t (replace_first (field_fix tt) t))"
proof -
  let ?m = "field_fix tt"
  from replace_first_cases [of ?m t] show ?thesis
  proof
    assume "replace_first ?m t = t"
    then show ?thesis by simp
  next
    assume "\<exists>pre rest n rep. t = pre @ rest \<and> ?m rest = Some (n, rep)
         \<and> replace_first ?m t = pre @ rep @ drop n rest"
    then obtain pre rest n rep where t: "t = pre @ rest" and m: "?m rest = Some (n, rep)"
      and r: "replace_first ?m t = pre @ rep @ drop n rest" by blast
    from m obtain name where m': "key_fix name [34, 34] tt rest = Some (n, rep)"
      by (auto simp: field_fix_def split: option.splits)
    then have k: "key_colon_tail name tt rest = Some n"
      and rep: "rep = (34 # name @ [34]) @ [58, 32] @ [34, 34] @ tail_text tt"
      by (auto simp: key_fix_def js_def)
    from key_colon_tail_shape [OF k] obtain w1 w2 post where
      rest: "rest = (34 # name @ [34]) @ w1 @ 58 # w2 @ tail_text tt @ post"
      and w: "list_all is_space w1" "list_all is_space w2" and d: "drop n rest = post"
      by blast
    have "t = pre @ (34 # name @ [34]) @ w1 @ 58 # w2 @ tail_text tt @ post
        \<and> replace_first ?m t = pre @ (34 # name @ [34]) @ [58, 32] @ [34, 34] @ tail_text tt @ post
        \<and> list_all is_space w1 \<and> list_all is_space w2 \<and> (34 # name @ [34] = [] \<longrightarrow> w1 = [])
        \<and> (tail_text tt = [] \<or> tail_text tt = [125] \<or> tail_text tt = [44])"
      using t rest r rep d w tail_texts [OF assms] by simp
    then have "colon_edit (34 # name @ [34]) [34, 34] t (replace_first ?m t)"
      unfolding colon_edit_def by blast
    then show ?thesis by blast
  qed
qed

lemma colon_fix_step:
  assumes "tt = AtEnd \<or> tt = Before 125 \<or> tt = Before 44"
  shows "replace_first (colon_fix tt) t = t
         \<or> colon_edit [] [34, 34] t (replace_first (colon_fix tt) t)"
proof -
  let ?m = "colon_fix tt"
  from replace_first_cases [of ?m t] show ?thesis
  proof
    assume "replace_first ?m t = t"
    then show ?thesis by simp
  next
    assume "\<exists>pre rest n rep. t = pre @ rest \<and> ?m rest = Some (n, rep)
         \<and> replace_first ?m t = pre @ rep @ drop n rest"
    then obtain pre rest n rep where t: "t = pre @ rest" and m: "?m rest = Some (n, rep)"
      and r: "replace_first ?m t = pre @ rep @ drop n rest" by blast
    from m have k: "colon_tail tt rest = Some n"
      and rep: "rep = [58, 32] @ [34, 34] @ tail_text tt"
      by (auto simp: colon_fix_def js_def)
    from colon_tail_shape [OF k] obtain w2 post where
      rest: "rest = 58 # w2 @ tail_text tt @ post"
      and w: "list_all is_space w2" and d: "drop n rest = post"
      by blast
    have "t = pre @ [] @ [] @ 58 # w2 @ tail_text tt @ post
        \<and> replace_first ?m t = pre @ [] @ [58, 32] @ [34, 34] @ tail_text tt @ post
        \<and> list_all is_space [] \<and> list_all is_space w2 \<and> (([]::jsstring) = [] \<longrightarrow> ([]::jsstring) = [])
        \<and> (tail_text tt = [] \<or> tail_text tt = [125] \<or> tail_text tt = [44])"
      using t rest r rep d w tail_texts [OF assms] by simp
    then have "colon_edit [] [34, 34] t (replace_first ?m t)"
      unfolding colon_edit_def by blast
    then show ?thesis by simp
  qed
qed

lemma trailing_comma_step:
  "replace_first trailing_comma t = t \<or> comma_edit t (replace_first trailing_comma t)"
proof -
  let ?m = "trailing_comma"
  from replace_first_cases [of ?m t] show ?thesis
  proof
    assume "replace_first ?m t = t"
    then show ?thesis by simp
  next
    assume "\<exists>pre rest n rep. t = pre @ rest \<and> ?m rest = Some (n, rep)
         \<and> replace_first ?m t = pre @ rep @ drop n rest"
    then obtain pre rest n rep where t: "t = pre @ rest" and m: "?m rest = Some (n, rep)"
      and r: "replace_first ?m t = pre @ rep @ drop n rest" by blast
    from m obtain b where rest: "rest = 44 # b"
      and st: "startsWith (dropWhile is_space b) 125 \<or> startsWith (dropWhile is_space b) 93"
      and n: "n = 2 + length (takeWhile is_space b)"
      and rep: "rep = takeWhile is_space b @ [hd (dropWhile is_space b)]"
      by (cases rest) (auto simp: trailing_comma_def split: if_splits)
    from st obtain c post where d: "dropWhile is_space b = c # post" and c: "c = 125 \<or> c = 93"
      by (cases "dropWhile is_space b") (auto simp: startsWith_def)
    have "b = takeWhile is_space b @ dropWhile is_space b" by simp
    then have b: "b = takeWhile is_space b @ c # post" by (simp only: d)
    have w: "list_all is_space (takeWhile is_space b)"
      by (simp add: list_all_iff) (meson set_takeWhileD)
    have "drop n rest = drop (Suc (length (takeWhile is_space b))) (takeWhile is_space b @ c # post)"
      using rest n b by simp
    then have dn: "drop n rest = post" by simp
    have "t = pre @ 44 # takeWhile is_space b @ [c] @ post"
      using t rest b by simp
    moreover have "replace_first ?m t = pre @ takeWhile is_space b @ [c] @ post"
      using r rep d dn by simp
    ultimately have "comma_edit t (replace_first ?m t)"
      unfolding comma_edit_def using w c by blast
    then show ?thesis by simp
  qed
qed

subsection \<open>What the repair pass keeps\<close>

definition is_brace :: "nat \<Rightarrow> bool" where
  "is_brace c \<longleftrightarrow> c = 123 \<or> c = 125"

definition is_bracket :: "nat \<Rightarrow> bool" where
  "is_bracket c \<longleftrightarrow> c = 91 \<or> c = 93"

text \<open>
  \<open>kept c t\<close>: the text \<open>t\<close> has the braces of \<open>c\<close> in the same order, a key that ends in \<open>s\<close>
  before its colon exactly if \<open>c\<close> has one, the brackets of \<open>c\<close> if \<open>c\<close> has no such key, and
  an opening brace or bracket in front exactly if \<open>c\<close> has one.
\<close>

definition kept :: "jsstring \<Rightarrow> jsstring \<Rightarrow> bool" where
  "kept c t \<longleftrightarrow>
     filter is_brace t = filter is_brace c
     \<and> s_key_colon t = s_key_colon c
     \<and> (\<not> s_key_colon c \<longrightarrow> filter is_bracket t = filter is_bracket c)
     \<and> startsWith t 123 = startsWith c 123
     \<and> startsWith t 91 = startsWith c 91"

lemma kept_refl: "kept c c"
  by (simp add: kept_def)

lemma filter_spaces:
  assumes "list_all is_space w"
  shows "filter is_brace w = []" "filter is_bracket w = []"
proof -
  have "\<not> is_brace x \<and> \<not> is_bracket x" if "is_space x" for x
    using that by (auto simp: is_space_def is_brace_def is_bracket_def)
  with assms show "filter is_brace w = []" "filter is_bracket w = []"
    by (auto simp: list_all_iff filter_empty_conv)
qed

lemma colon_edit_kept:
  assumes e: "colon_edit K val t t'" and k: "K \<noteq> [] \<longrightarrow> last K = 34"
    and v: "val = [34, 34] \<or> (val = [91, 93] \<and> (\<exists>k. K = k @ [115, 34]))"
  shows "filter is_brace t' = filter is_brace t"
    and "s_key_colon t' = s_key_colon t"
    and "val = [34, 34] \<Longrightarrow> filter is_bracket t' = filter is_bracket t"
    and "val = [91, 93] \<Longrightarrow> s_key_colon t"
    and "startsWith t' x = startsWith t x"
proof -
  from e obtain pre w1 w2 T post where
    t: "t = pre @ K @ w1 @ 58 # w2 @ T @ post" and t': "t' = pre @ K @ [58, 32] @ val @ T @ post"
    and w: "list_all is_space w1" "list_all is_space w2" and k0: "K = [] \<longrightarrow> w1 = []"
    and T: "T = [] \<or> T = [125] \<or> T = [44]"
    unfolding colon_edit_def by blast
  from v have v': "val = [34, 34] \<or> val = [91, 93]" by blast
  then have vb: "filter is_brace val = []"
    by (auto simp: is_brace_def)
  show "filter is_brace t' = filter is_brace t"
    unfolding t t' by (simp add: filter_spaces [OF w(1)] filter_spaces [OF w(2)] vb)
       (simp add: is_brace_def)
  have "s_key_colon (pre @ (K @ w1 @ 58 # w2 @ T) @ post)
          = s_key_colon (pre @ (K @ [58, 32] @ val @ T) @ post)"
    by (rule s_key_colon_edit) (rule vstep_colon_edit [OF w k0 k T v'])
  then show "s_key_colon t' = s_key_colon t"
    unfolding t t' by simp
  show "filter is_bracket t' = filter is_bracket t" if "val = [34, 34]"
    unfolding t t' using that
    by (simp add: filter_spaces [OF w(1)] filter_spaces [OF w(2)]) (simp add: is_bracket_def)
  show "s_key_colon t" if "val = [91, 93]"
  proof -
    from that v obtain k where K: "K = k @ [115, 34]" by auto
    have "foldl vstep (foldl vstep 0 pre) (k @ [115, 34] @ w1 @ 58 # (w2 @ T @ post)) = 3"
      using w(1) by (rule vstep_fired)
    then show ?thesis
      unfolding t K by (simp add: s_key_colon_def)
  qed
  show "startsWith t' x = startsWith t x"
  proof (cases pre)
    case (Cons a pre')
    then show ?thesis unfolding t t' by (simp add: startsWith_def)
  next
    case Nil
    show ?thesis
    proof (cases K)
      case (Cons a K')
      with Nil show ?thesis unfolding t t' by (simp add: startsWith_def)
    next
      case n: Nil
      with k0 have "w1 = []" by simp
      with Nil n show ?thesis unfolding t t' by (simp add: startsWith_def)
    qed
  qed
qed

lemma comma_edit_kept:
  assumes "comma_edit t t'"
  shows "filter is_brace t' = filter is_brace t"
    and "s_key_colon t' = s_key_colon t"
    and "filter is_bracket t' = filter is_bracket t"
    and "startsWith t' 123 = startsWith t 123"
    and "startsWith t' 91 = startsWith t 91"
proof -
  from assms obtain pre w c post where
    t: "t = pre @ 44 # w @ [c] @ post" and t': "t' = pre @ w @ [c] @ post"
    and w: "list_all is_space w" and c: "c = 125 \<or> c = 93"
    unfolding comma_edit_def by blast
  show "filter is_brace t' = filter is_brace t"
    unfolding t t' by (simp add: is_brace_def)
  show "filter is_bracket t' = filter is_bracket t"
    unfolding t t' by (simp add: is_bracket_def)
  have "s_key_colon (pre @ (44 # w @ [c]) @ post) = s_key_colon (pre @ (w @ [c]) @ post)"
    by (rule s_key_colon_edit) (rule vstep_comma_edit [OF w c])
  then show "s_key_colon t' = s_key_colon t"
    unfolding t t' by simp
  have h: "\<not> startsWith (w @ [c] @ post) x" if "x = 123 \<or> x = 91" for x
  proof (cases w)
    case Nil
    with c that show ?thesis by (auto simp: startsWith_def)
  next
    case (Cons a w')
    with w have "is_space a" by simp
    with that have "a \<noteq> x" by (auto simp: is_space_def)
    with Cons show ?thesis by (simp add: startsWith_def)
  qed
  show "startsWith t' 123 = startsWith t 123"
    unfolding t t' using h [of 123] by (cases pre) (simp_all add: startsWith_def)
  show "startsWith t' 91 = startsWith t 91"
    unfolding t t' using h [of 91] by (cases pre) (simp_all add: startsWith_def)
qed

lemma kept_colon_edit:
  assumes "kept c t" "colon_edit K val t t'" "K \<noteq> [] \<longrightarrow> last K = 34"
    "val = [34, 34] \<or> (val = [91, 93] \<and> (\<exists>k. K = k @ [115, 34]))"
  shows "kept c t'"
proof -
  note e = colon_edit_kept [OF assms(2,3,4)]
  from assms(4) show ?thesis
  proof
    assume "val = [34, 34]"
    with e(1,2,3,5) assms(1) show ?thesis by (simp add: kept_def)
  next
    assume "val = [91, 93] \<and> (\<exists>k. K = k @ [115, 34])"
    then have "s_key_colon t" using e(4) by simp
    with e(1,2,5) assms(1) show ?thesis by (simp add: kept_def)
  qed
qed

lemma kept_key_fix:
  assumes "kept c t" "tt = AtEnd \<or> tt = Before 125 \<or> tt = Before 44"
    "name = js ''dependencies'' \<or> name = js ''subtasks''"
  shows "kept c (replace_first (key_fix name (js ''[]'') tt) t)"
proof -
  have v: "js ''[]'' = [91, 93]" by (simp add: js_def)
  from assms(3) have "\<exists>k. 34 # name @ [34] = k @ [115, 34]"
  proof
    assume "name = js ''dependencies''"
    then have "34 # name @ [34] = (34 # js ''dependencie'') @ [115, 34]" by (simp add: js_def)
    then show ?thesis by blast
  next
    assume "name = js ''subtasks''"
    then have "34 # name @ [34] = (34 # js ''subtask'') @ [115, 34]" by (simp add: js_def)
    then show ?thesis by blast
  qed
  then have k: "js ''[]'' = [34, 34]
      \<or> (js ''[]'' = [91, 93] \<and> (\<exists>k. 34 # name @ [34] = k @ [115, 34]))"
    using v by simp
  from key_fix_step [OF assms(2), of name "js ''[]''" t] show ?thesis
  proof
    assume "replace_first (key_fix name (js ''[]'') tt) t = t"
    with assms(1) show ?thesis by simp
  next
    assume "colon_edit (34 # name @ [34]) (js ''[]'') t
              (replace_first (key_fix name (js ''[]'') tt) t)"
    with assms(1) show ?thesis
      by (rule kept_colon_edit) (simp, rule k)
  qed
qed

lemma kept_field_fix:
  assumes "kept c t" "tt = AtEnd \<or> tt = Before 125 \<or> tt = Before 44"
  shows "kept c (replace_first (field_fix tt) t)"
proof -
  from field_fix_step [OF assms(2), of t] show ?thesis
  proof
    assume "replace_first (field_fix tt) t = t"
    with assms(1) show ?thesis by simp
  next
    assume "\<exists>name. colon_edit (34 # name @ [34]) [34, 34] t (replace_first (field_fix tt) t)"
    then obtain name where
      "colon_edit (34 # name @ [34]) [34, 34] t (replace_first (field_fix tt) t)" by blast
    with assms(1) show ?thesis
      by (rule kept_colon_edit) simp_all
  qed
qed

lemma kept_colon_fix:
  assumes "kept c t" "tt = AtEnd \<or> tt = Before 125 \<or> tt = Before 44"
  shows "kept c (replace_first (colon_fix tt) t)"
proof -
  from colon_fix_step [OF assms(2), of t] show ?thesis
  proof
    assume "replace_first (colon_fix tt) t = t"
    with assms(1) show ?thesis by simp
  next
    assume "colon_edit [] [34, 34] t (replace_first (colon_fix tt) t)"
    with assms(1) show ?thesis
      by (rule kept_colon_edit) simp_all
  qed
qed

lemma kept_trailing_comma:
  assumes "kept c t"
  shows "kept c (replace_first trailing_comma t)"
proof -
  from trailing_comma_step [of t] show ?thesis
  proof
    assume "replace_first trailing_comma t = t"
    with assms show ?thesis by simp
  next
    assume "comma_edit t (replace_first trailing_comma t)"
    from comma_edit_kept [OF this] assms show ?thesis
      by (simp add: kept_def)
  qed
qed

text \<open>The repair pass: the thirteen replacements, then the two closing characters.\<close>

lemma repair_kept:
  obtains f where "kept c f"
    and "repair c =
           (let g = (if startsWith f 123 \<and> \<not> endsWith f 125 then f @ [125] else f)
            in if startsWith g 91 \<and> \<not> endsWith g 93 then g @ [93] else g)"
proof -
  define f where "f =
    replace_first trailing_comma
     (replace_first (colon_fix (Before 44))
       (replace_first (colon_fix (Before 125))
         (replace_first (colon_fix AtEnd)
           (replace_first (field_fix (Before 44))
             (replace_first (field_fix (Before 125))
               (replace_first (field_fix AtEnd)
                 (replace_first (key_fix (js ''subtasks'') (js ''[]'') (Before 44))
                   (replace_first (key_fix (js ''subtasks'') (js ''[]'') (Before 125))
                     (replace_first (key_fix (js ''subtasks'') (js ''[]'') AtEnd)
                       (replace_first (key_fix (js ''dependencies'') (js ''[]'') (Before 44))
                         (replace_first (key_fix (js ''dependencies'') (js ''[]'') (Before 125))
                           (replace_first (key_fix (js ''dependencies'') (js ''[]'') AtEnd)
                              c))))))))))))"
  have "kept c f"
    unfolding f_def
    by (intro kept_trailing_comma kept_colon_fix kept_field_fix kept_key_fix kept_refl)
       simp_all
  moreover have "repair c =
           (let g = (if startsWith f 123 \<and> \<not> endsWith f 125 then f @ [125] else f)
            in if startsWith g 91 \<and> \<not> endsWith g 93 then g @ [93] else g)"
    unfolding repair_def Let_def f_def by (rule refl)
  ultimately show ?thesis by (rule that)
qed

subsection \<open>A single value without brace or bracket\<close>

lemma JSON_lex_nil: "JSON_lex s = Some [] \<Longrightarrow> list_all is_json_space s"
  by (induction s) (auto split: if_splits option.splits)

lemma vstep_no_colon: "58 \<notin> set s \<Longrightarrow> q \<noteq> 3 \<Longrightarrow> foldl vstep q s \<noteq> 3"
proof (induction s arbitrary: q)
  case Nil
  then show ?case by simp
next
  case (Cons c s)
  then have "vstep q c \<noteq> 3" by (auto simp: vstep_def)
  with Cons show ?case by simp
qed

lemma lex_string_guard:
  "lex_string s = Some (str, rest) \<Longrightarrow> q = 0 \<or> q = 1 \<Longrightarrow>
     \<exists>body. s = body @ 34 # rest \<and> (foldl vstep q body = 0 \<or> foldl vstep q body = 1)"
proof (induction s arbitrary: str rest q rule: length_induct)
  case (1 s)
  note IH = 1(1) [rule_format]
  note q = 1(3)
  from 1(2) obtain c cs where s: "s = c # cs"
    by (cases s) auto
  show ?case
  proof (cases "c = 34")
    case True
    with 1(2) s have "cs = rest" by simp
    with True s q show ?thesis by (intro exI [of _ "[]"]) simp
  next
    case not_quote: False
    show ?thesis
    proof (cases "c = 92")
      case backslash: True
      have b: "vstep q 92 = 0" using q by (auto simp: vstep_def is_space_def)
      from backslash not_quote 1(2) s obtain e es where cs: "cs = e # es"
        by (cases cs) auto
      show ?thesis
      proof (cases "e = 117")
        case u: True
        with not_quote backslash s cs 1(2)
        obtain h1 h2 h3 h4 r0 a b' c' d str' where
          es: "es = h1 # h2 # h3 # h4 # r0"
          and hx: "hex_value h1 = Some a" "hex_value h2 = Some b'"
                  "hex_value h3 = Some c'" "hex_value h4 = Some d"
          and rec: "lex_string r0 = Some (str', rest)"
          by (auto split: list.splits option.splits)
        have hv: "vstep 0 h = 0" if "hex_value h = Some y" for h y
          using that by (auto simp: hex_value_def vstep_def split: if_splits)
        have "length r0 < length s" using s cs es by simp
        from IH [OF this rec, of 0]
        obtain body where body: "r0 = body @ 34 # rest"
          "foldl vstep 0 body = 0 \<or> foldl vstep 0 body = 1"
          by auto
        have "vstep 0 117 = 0" by (simp add: vstep_def)
        with b hx body(2) have "foldl vstep q (92 # 117 # h1 # h2 # h3 # h4 # body) = 0
            \<or> foldl vstep q (92 # 117 # h1 # h2 # h3 # h4 # body) = 1"
          by (simp add: hv)
        with backslash s cs u es body(1) show ?thesis
          by (intro exI [of _ "92 # 117 # h1 # h2 # h3 # h4 # body"]) simp
      next
        case not_u: False
        with not_quote backslash s cs 1(2)
        obtain x str' where esc: "escape_char e = Some x"
          and rec: "lex_string es = Some (str', rest)"
          by (auto split: option.splits)
        from esc have e0: "vstep 0 e = 0"
          by (auto simp: escape_char_def vstep_def split: if_splits)
        have "length es < length s" using s cs by simp
        from IH [OF this rec, of 0]
        obtain body where body: "es = body @ 34 # rest"
          "foldl vstep 0 body = 0 \<or> foldl vstep 0 body = 1"
          by auto
        from b e0 body(2) have "foldl vstep q (92 # e # body) = 0
            \<or> foldl vstep q (92 # e # body) = 1"
          by simp
        with backslash s cs body(1) show ?thesis
          by (intro exI [of _ "92 # e # body"]) simp
      qed
    next
      case not_backslash: False
      with not_quote 1(2) s obtain str' where rec: "lex_string cs = Some (str', rest)"
        by (auto split: if_splits)
      have c: "vstep q c = 0 \<or> vstep q c = 1"
        using q not_quote by (auto simp: vstep_def)
      have "length cs < length s" using s by simp
      from IH [OF this rec c]
      obtain body where body: "cs = body @ 34 # rest"
        "foldl vstep (vstep q c) body = 0 \<or> foldl vstep (vstep q c) body = 1"
        by auto
      with s show ?thesis
        by (intro exI [of _ "c # body"]) simp
    qed
  qed
qed

lemma last_not_space:
  assumes "list_all is_json_space rest" "\<not> is_space (last (x @ rest))"
  shows "rest = []"
proof (rule ccontr)
  assume "rest \<noteq> []"
  then have "last (x @ rest) = last rest" "last rest \<in> set rest" by simp_all
  with assms(1) have "is_json_space (last (x @ rest))" by (simp add: list_all_iff)
  then have "is_space (last (x @ rest))" by (auto simp: is_json_space_def is_space_def)
  with assms(2) show False by contradiction
qed

lemma scalar_no_key:
  assumes valid: "valid_json r" and bare: "trim r = r"
    and nb: "\<not> startsWith r 123" "\<not> startsWith r 91"
  shows "\<not> s_key_colon r"
proof -
  from valid obtain ts v where lx: "JSON_lex r = Some ts" and pv: "parse_value ts = Some (v, [])"
    by (auto simp: valid_json_def JSON_parse_def split: option.splits list.splits)
  from pv have "ts \<noteq> []" by auto
  with lx have r: "r \<noteq> []" by auto
  with bare trim_ends [of r] have hd: "\<not> is_space (hd r)" and last: "\<not> is_space (last r)"
    by simp_all
  from r obtain c cs where cs: "r = c # cs" by (cases r) auto
  with hd have c: "\<not> is_json_space c" by (auto simp: is_json_space_def is_space_def)
  show ?thesis
  proof (cases "c = 34")
    case True
    with lx cs c obtain str rest ts' where ls: "lex_string cs = Some (str, rest)"
      and r': "JSON_lex rest = Some ts'" and ts: "ts = TString str # ts'"
      by (auto split: option.splits)
    from pv ts have "ts' = []" by simp
    with r' have sp: "list_all is_json_space rest" by (simp add: JSON_lex_nil)
    from lex_string_guard [OF ls, of 0] obtain body where
      body: "cs = body @ 34 # rest" "foldl vstep 0 body = 0 \<or> foldl vstep 0 body = 1"
      by auto
    have "r = (c # body @ [34]) @ rest" using cs body(1) by simp
    with sp last have "rest = []" using last_not_space by metis
    with cs body(1) True have "r = 34 # body @ [34]" by simp
    moreover have "vstep 0 34 = 0" by (simp add: vstep_def is_space_def)
    moreover have "vstep q 34 \<noteq> 3" if "q = 0 \<or> q = 1" for q
      using that by (auto simp: vstep_def)
    ultimately show ?thesis
      using body(2) by (auto simp: s_key_colon_def)
  next
    case False
    from JSON_lex_step [OF lx r] obtain x rest t ts' where
      x: "r = x @ rest" "token_text x t" "JSON_lex rest = Some ts'"
      "ts = (case t of None \<Rightarrow> ts' | Some tk \<Rightarrow> tk # ts')" by blast
    from x(2) have xn: "x \<noteq> []" by (rule token_text_nonempty)
    with x(1) cs have hx: "hd x = c" by (cases x) auto
    have num: "58 \<notin> set x" if "\<forall>c\<in>set x. is_number_char c"
      using that by (auto simp: is_number_char_def is_digit_def)
    have "\<exists>tk. t = Some tk \<and> tk \<noteq> TLBrace \<and> tk \<noteq> TLBrack \<and> (\<forall>str. tk \<noteq> TString str)
        \<and> (tk = TRBrace \<or> tk = TRBrack \<or> tk = TColon \<or> tk = TComma \<or> 58 \<notin> set x)"
      using x(2) hx c False nb cs num unfolding token_text_def
      by (elim disjE exE conjE) (auto simp: startsWith_def js_def)
    then obtain tk where t: "t = Some tk"
      and tk: "tk \<noteq> TLBrace" "tk \<noteq> TLBrack" "\<forall>str. tk \<noteq> TString str"
      and colon: "tk = TRBrace \<or> tk = TRBrack \<or> tk = TColon \<or> tk = TComma \<or> 58 \<notin> set x"
      by blast
    from pv x(4) t have pv': "parse_value (tk # ts') = Some (v, [])" by simp
    with tk colon have "ts' = []" and nc: "58 \<notin> set x"
      by (cases tk; auto)+
    with x(3) have "list_all is_json_space rest" by (simp add: JSON_lex_nil)
    with last x(1) have "rest = []" using last_not_space by metis
    with x(1) nc have "58 \<notin> set r" by simp
    then have "foldl vstep 0 r \<noteq> 3" by (rule vstep_no_colon) simp
    then show ?thesis by (simp add: s_key_colon_def)
  qed
qed

subsection \<open>The greedy matches after the repair pass and after the conversion\<close>

lemma pairs_braces: "pairs 123 125 t = pairs 123 125 (filter is_brace t)"
  by (simp add: pairs_filter is_brace_def)

lemma pairs_brackets: "pairs 91 93 t = pairs 91 93 (filter is_bracket t)"
  by (simp add: pairs_filter is_bracket_def)

lemma startsWith_append: "startsWith f x \<Longrightarrow> startsWith (f @ y) x"
  by (cases f) (simp_all add: startsWith_def)

lemma repair_uncut:
  assumes uncut: "uncut c" and valid: "valid_json (repair c)" and bare: "trim (repair c) = repair c"
  shows "uncut (repair c)"
proof -
  obtain f where k: "kept c f"
    and r: "repair c =
           (let g = (if startsWith f 123 \<and> \<not> endsWith f 125 then f @ [125] else f)
            in if startsWith g 91 \<and> \<not> endsWith g 93 then g @ [93] else g)"
    by (rule repair_kept)
  from k have kb: "filter is_brace f = filter is_brace c"
    and kk: "s_key_colon f = s_key_colon c"
    and kq: "\<not> s_key_colon c \<Longrightarrow> filter is_bracket f = filter is_bracket c"
    and k1: "startsWith f 123 = startsWith c 123"
    and k2: "startsWith f 91 = startsWith c 91"
    by (simp_all add: kept_def)
  show ?thesis
  proof (cases "startsWith c 123")
    case True
    with k1 have "startsWith f 123" by simp
    then have "startsWith (repair c) 123"
      unfolding r Let_def by (cases f) (auto simp: startsWith_def)
    then show ?thesis by (simp add: uncut_def)
  next
    case False
    with k1 have f1: "\<not> startsWith f 123" by simp
    then have r1: "repair c = (if startsWith f 91 \<and> \<not> endsWith f 93 then f @ [93] else f)"
      unfolding r Let_def by simp
    from False uncut have np: "\<not> pairs 123 125 c"
      and nq: "startsWith c 91 \<or> \<not> pairs 91 93 c"
      by (auto simp: uncut_pairs)
    have "filter is_brace (repair c) = filter is_brace f"
      unfolding r1 by (simp add: is_brace_def)
    with kb np have np': "\<not> pairs 123 125 (repair c)"
      by (metis pairs_braces)
    show ?thesis
    proof (cases "startsWith c 91")
      case True
      with k2 have "startsWith f 91" by simp
      then have "startsWith (repair c) 91"
        unfolding r1 by (simp add: startsWith_append)
      with np' show ?thesis by (simp add: uncut_pairs)
    next
      case f2: False
      with k2 have r2: "repair c = f" unfolding r1 by simp
      from f1 f2 k1 k2 r2 have "\<not> startsWith (repair c) 123" "\<not> startsWith (repair c) 91"
        by simp_all
      with valid bare have "\<not> s_key_colon (repair c)" by (rule scalar_no_key)
      with r2 kk have "\<not> s_key_colon c" by simp
      then have "filter is_bracket f = filter is_bracket c" by (rule kq)
      moreover from f2 nq have "\<not> pairs 91 93 c" by simp
      ultimately have "\<not> pairs 91 93 (repair c)"
        unfolding r2 by (metis pairs_brackets)
      with np' show ?thesis by (simp add: uncut_pairs)
    qed
  qed
qed

lemma takeWhile_all: "list_all P (takeWhile P xs)"
  by (simp add: list_all_iff) (meson set_takeWhileD)

lemma unquoted_key_shape:
  assumes "unquoted_key s = Some (rep, rest)"
  shows "\<exists>c w d i w'. s = c # w @ d # i @ w' @ 58 # rest \<and> rep = c # w @ [34] @ d # i @ [34, 58]
           \<and> list_all is_space w \<and> list_all is_space w' \<and> is_ident_start d
           \<and> list_all is_ident_part i"
proof -
  from assms obtain c r d ds where s: "s = c # r"
    and d: "dropWhile is_space r = d # ds" and id: "is_ident_start d"
    and e: "dropWhile is_space (dropWhile is_ident_part ds) = 58 # rest"
    and rep: "rep = c # takeWhile is_space r @ [34] @ d # takeWhile is_ident_part ds @ [34, 58]"
    unfolding unquoted_key_def
    by (auto split: list.splits if_splits)
  have "r = takeWhile is_space r @ dropWhile is_space r" by simp
  then have r: "r = takeWhile is_space r @ d # ds" by (simp only: d)
  have "ds = takeWhile is_ident_part ds @ dropWhile is_ident_part ds" by simp
  also have "dropWhile is_ident_part ds = takeWhile is_space (dropWhile is_ident_part ds)
      @ dropWhile is_space (dropWhile is_ident_part ds)" by simp
  finally have ds: "ds = takeWhile is_ident_part ds
      @ takeWhile is_space (dropWhile is_ident_part ds) @ 58 # rest"
    by (simp only: e)
  have "s = c # takeWhile is_space r @ d # takeWhile is_ident_part ds
      @ takeWhile is_space (dropWhile is_ident_part ds) @ 58 # rest"
    using s r ds by metis
  with rep id show ?thesis
    using takeWhile_all [of is_space] takeWhile_all [of is_ident_part] by blast
qed

lemma quote_keys_filter:
  assumes "\<And>x. P x \<Longrightarrow> \<not> is_space x \<and> \<not> is_ident_start x \<and> \<not> is_ident_part x
                     \<and> x \<noteq> 34 \<and> x \<noteq> 58"
  shows "filter P (quote_keys s) = filter P s"
proof (induction s rule: quote_keys.induct)
  case 1
  show ?case by simp
next
  case (2 c cs)
  have sp: "filter P w = []" if "list_all is_space w" for w
    using that assms by (auto simp: list_all_iff filter_empty_conv)
  have ip: "filter P w = []" if "list_all is_ident_part w" for w
    using that assms by (auto simp: list_all_iff filter_empty_conv)
  show ?case
  proof (cases "unquoted_key (c # cs)")
    case None
    with 2 show ?thesis by simp
  next
    case (Some a)
    obtain rep rest where a: "a = (rep, rest)" by (cases a)
    from unquoted_key_shape [OF Some [unfolded a]] obtain c' w d i w' where
      s: "c # cs = c' # w @ d # i @ w' @ 58 # rest" and rep: "rep = c' # w @ [34] @ d # i @ [34, 58]"
      and w: "list_all is_space w" "list_all is_space w'" and d: "is_ident_start d"
      and i: "list_all is_ident_part i" by blast
    have "filter P (quote_keys (c # cs)) = filter P rep @ filter P (quote_keys rest)"
      using Some a by simp
    also have "filter P (quote_keys rest) = filter P rest"
      using 2 Some a by simp
    also have "filter P rep = filter P [c']"
      unfolding rep using assms d by (auto simp: sp [OF w(1)] ip [OF i])
    also have "filter P [c'] @ filter P rest = filter P (c' # w @ d # i @ w' @ 58 # rest)"
      using assms d by (auto simp: sp [OF w(1)] sp [OF w(2)] ip [OF i])
    finally show ?thesis by (simp only: s)
  qed
qed

lemma quote_keys_head: "startsWith (quote_keys s) x = startsWith s x"
proof (cases s)
  case Nil
  then show ?thesis by simp
next
  case (Cons c cs)
  show ?thesis
  proof (cases "unquoted_key (c # cs)")
    case None
    with Cons show ?thesis by (simp add: startsWith_def)
  next
    case (Some a)
    obtain rep rest where a: "a = (rep, rest)" by (cases a)
    from unquoted_key_shape [OF Some [unfolded a]] obtain c' w d i w' where
      "c # cs = c' # w @ d # i @ w' @ 58 # rest" "rep = c' # w @ [34] @ d # i @ [34, 58]"
      by blast
    with Cons Some a show ?thesis by (simp add: startsWith_def)
  qed
qed

lemma convert_uncut:
  assumes "uncut c"
  shows "uncut (convert c)"
proof -
  let ?f = "\<lambda>c::nat. if c = 39 then 34 else c"
  have b: "filter is_brace (quote_keys c) = filter is_brace c"
    by (rule quote_keys_filter)
       (auto simp: is_brace_def is_space_def is_ident_start_def is_ident_part_def
          is_word_def is_alpha_def is_digit_def)
  have k: "filter is_bracket (quote_keys c) = filter is_bracket c"
    by (rule quote_keys_filter)
       (auto simp: is_bracket_def is_space_def is_ident_start_def is_ident_part_def
          is_word_def is_alpha_def is_digit_def)
  have p1: "pairs 123 125 (convert c) = pairs 123 125 c"
    unfolding convert_def using b
    by (subst pairs_map) (simp_all, metis pairs_braces)
  have p2: "pairs 91 93 (convert c) = pairs 91 93 c"
    unfolding convert_def using k
    by (subst pairs_map) (simp_all, metis pairs_brackets)
  have h: "startsWith (convert c) x = startsWith c x" if "x = 123 \<or> x = 91" for x
  proof -
    have "startsWith (map ?f t) x = startsWith t x" for t
      using that by (cases t) (auto simp: startsWith_def)
    then show ?thesis
      unfolding convert_def by (simp add: quote_keys_head)
  qed
  from assms show ?thesis
    by (simp add: uncut_pairs p1 p2 h)
qed

section \<open>Calling extractJson on its own result\<close>

text \<open>
  Claim C6, amended. When the first call returns valid JSON that has no white space around
  it and contains no U+2028 or U+2029, the second call returns the same text.
\<close>

theorem extractJson_idempotent:
  assumes "extractJson s = Inr r"
    and "valid_json r" "trim r = r" "8232 \<notin> set r" "8233 \<notin> set r"
  shows "extractJson_twice s = extractJson s"
proof -
  have "r = s \<or> uncut r"
  proof -
    from assms(1) have
      "r = (if valid_json (candidate s) then candidate s
            else if valid_json (repair (candidate s)) then repair (candidate s)
            else if valid_json (convert (candidate s)) then convert (candidate s)
            else s)"
      by (simp add: extractJson_stages)
    then consider "r = candidate s" | "r = repair (candidate s)" | "r = convert (candidate s)"
      | "r = s"
      by (auto split: if_splits)
    then show ?thesis
    proof cases
      case 1
      then show ?thesis by (simp add: candidate_uncut)
    next
      case 2
      with assms(2,3) candidate_uncut [of s] show ?thesis
        by (simp add: repair_uncut)
    next
      case 3
      with candidate_uncut [of s] show ?thesis
        by (simp add: convert_uncut)
    next
      case 4
      then show ?thesis by simp
    qed
  qed
  then show ?thesis
  proof
    assume "r = s"
    with assms(1) show ?thesis by (simp add: extractJson_twice_def)
  next
    assume "uncut r"
    with assms have "extractJson r = Inr r"
      by (intro extractJson_bare_valid)
    with assms(1) show ?thesis by (simp add: extractJson_twice_def)
  qed
qed

lemma fenced_candidate: "candidate ([96, 96, 96] @ js ''json'' @ [10] @ js ''{\"title\":\"x\"}'' @ [10, 96, 96, 96]) = js ''{\"title\":\"x\"}''"
  by (simp add: char_defs candidate_defs)

lemma fenced_extract: "extractJson ([96, 96, 96] @ js ''json'' @ [10] @ js ''{\"title\":\"x\"}'' @ [10, 96, 96, 96]) = Inr (js ''{\"title\":\"x\"}'')"
  by (simp only: extractJson_stages fenced_candidate title_object_valid if_True)

lemma truncated_extract:
  "extractJson (js ''{\"title\":\"x\",\"dependencies\":'')
     = Inr (js ''{\"title\":\"x\",\"dependencies\": []}'')"
proof -
  have "valid_json (js ''{\"title\":\"x\",\"dependencies\": []}'')"
    by (simp add: valid_json_def char_defs parse_defs)
  moreover have "\<not> valid_json (js ''{\"title\":\"x\",\"dependencies\":'')"
    by (simp add: valid_json_def truncated_invalid)
  ultimately show ?thesis
    by (simp only: extractJson_stages truncated_candidate truncated_repair if_True if_False)
qed

theorem extractJson_idempotent_witness:
  "extractJson ([96, 96, 96] @ js ''json'' @ [10] @ js ''{\"title\":\"x\"}'' @ [10, 96, 96, 96]) = Inr (js ''{\"title\":\"x\"}'')
   \<and> valid_json (js ''{\"title\":\"x\"}'') \<and> trim (js ''{\"title\":\"x\"}'') = js ''{\"title\":\"x\"}''
   \<and> extractJson_twice ([96, 96, 96] @ js ''json'' @ [10] @ js ''{\"title\":\"x\"}'' @ [10, 96, 96, 96]) = Inr (js ''{\"title\":\"x\"}'')
   \<and> extractJson (js ''{\"title\":\"x\",\"dependencies\":'')
       = Inr (js ''{\"title\":\"x\",\"dependencies\": []}'')
   \<and> extractJson_twice (js ''{\"title\":\"x\",\"dependencies\":'')
       = Inr (js ''{\"title\":\"x\",\"dependencies\": []}'')"
proof -
  have b: "trim (js ''{\"title\":\"x\"}'') = js ''{\"title\":\"x\"}''"
    by (simp add: trim_def char_defs)
  have p: "8232 \<notin> set (js ''{\"title\":\"x\"}'')" "8233 \<notin> set (js ''{\"title\":\"x\"}'')"
    using title_object_plain by simp_all
  have 1: "extractJson_twice ([96, 96, 96] @ js ''json'' @ [10] @ js ''{\"title\":\"x\"}'' @ [10, 96, 96, 96]) = Inr (js ''{\"title\":\"x\"}'')"
    using extractJson_idempotent [OF fenced_extract title_object_valid b p]
    by (simp only: fenced_extract)
  have v: "valid_json (js ''{\"title\":\"x\",\"dependencies\": []}'')"
    by (simp add: valid_json_def char_defs parse_defs)
  have b2: "trim (js ''{\"title\":\"x\",\"dependencies\": []}'') = js ''{\"title\":\"x\",\"dependencies\": []}''"
    by (simp add: trim_def char_defs)
  have p2: "8232 \<notin> set (js ''{\"title\":\"x\",\"dependencies\": []}'')"
    "8233 \<notin> set (js ''{\"title\":\"x\",\"dependencies\": []}'')"
    by (simp_all add: js_def)
  have 2: "extractJson_twice (js ''{\"title\":\"x\",\"dependencies\":'')
       = Inr (js ''{\"title\":\"x\",\"dependencies\": []}'')"
    using extractJson_idempotent [OF truncated_extract v b2 p2]
    by (simp only: truncated_extract)
  from 1 2 fenced_extract title_object_valid b truncated_extract show ?thesis
    by (intro conjI)
qed

text \<open>
  As stated the claim fails. On six backquotes, a line feed and \<^verbatim>\<open>1\<close> the first call removes
  one fence at the start of the text and one at the end of the first line and returns the
  line feed and \<^verbatim>\<open>1\<close>, which is valid JSON; the second call trims it. On a JSON string that
  holds U+2028 and six backquotes before \<^verbatim>\<open>json\<close>, the first call removes three backquotes
  after the separator and returns a valid JSON string without white space around it; the
  second call finds the fence \<^verbatim>\<open>```json\<close> after the separator and removes it.
\<close>

lemma ticks_candidate: "candidate ([96, 96, 96, 96, 96, 96, 10] @ js ''1'') = [10, 49]"
  by (simp add: char_defs candidate_defs)

lemma newline_one_valid: "valid_json [10, 49]"
  by (simp add: valid_json_def char_defs parse_defs)

lemma newline_one_candidate: "candidate [10, 49] = [49]"
  by (simp add: char_defs candidate_defs)

lemma one_valid: "valid_json [49]"
  by (simp add: valid_json_def char_defs parse_defs)

lemma separator_ticks_candidate: "candidate ([34, 8232, 96, 96, 96, 96, 96, 96] @ js ''json'' @ [34]) = ([34, 8232, 96, 96, 96] @ js ''json'' @ [34])"
  by (simp add: char_defs candidate_defs)

lemma separator_ticks_valid: "valid_json ([34, 8232, 96, 96, 96] @ js ''json'' @ [34])"
  by (simp add: valid_json_def char_defs parse_defs)

lemma separator_ticks_second: "candidate ([34, 8232, 96, 96, 96] @ js ''json'' @ [34]) = [34, 8232, 34]"
  by (simp add: char_defs candidate_defs)

lemma separator_string_valid: "valid_json [34, 8232, 34]"
  by (simp add: valid_json_def char_defs parse_defs)

theorem extractJson_not_idempotent:
  "extractJson ([96, 96, 96, 96, 96, 96, 10] @ js ''1'') = Inr [10, 49]
   \<and> valid_json [10, 49]
   \<and> extractJson_twice ([96, 96, 96, 96, 96, 96, 10] @ js ''1'') = Inr [49]
   \<and> extractJson_twice ([96, 96, 96, 96, 96, 96, 10] @ js ''1'') \<noteq> extractJson ([96, 96, 96, 96, 96, 96, 10] @ js ''1'')
   \<and> extractJson ([34, 8232, 96, 96, 96, 96, 96, 96] @ js ''json'' @ [34]) = Inr ([34, 8232, 96, 96, 96] @ js ''json'' @ [34])
   \<and> valid_json ([34, 8232, 96, 96, 96] @ js ''json'' @ [34]) \<and> trim ([34, 8232, 96, 96, 96] @ js ''json'' @ [34]) = ([34, 8232, 96, 96, 96] @ js ''json'' @ [34])
   \<and> extractJson_twice ([34, 8232, 96, 96, 96, 96, 96, 96] @ js ''json'' @ [34]) = Inr [34, 8232, 34]
   \<and> extractJson_twice ([34, 8232, 96, 96, 96, 96, 96, 96] @ js ''json'' @ [34]) \<noteq> extractJson ([34, 8232, 96, 96, 96, 96, 96, 96] @ js ''json'' @ [34])"
proof -
  have 1: "extractJson ([96, 96, 96, 96, 96, 96, 10] @ js ''1'') = Inr [10, 49]"
    by (simp only: extractJson_stages ticks_candidate newline_one_valid if_True)
  have 2: "extractJson [10, 49] = Inr [49]"
    by (simp add: extractJson_stages newline_one_candidate one_valid)
  have 3: "extractJson ([34, 8232, 96, 96, 96, 96, 96, 96] @ js ''json'' @ [34]) = Inr ([34, 8232, 96, 96, 96] @ js ''json'' @ [34])"
    by (simp only: extractJson_stages separator_ticks_candidate separator_ticks_valid if_True)
  have 4: "extractJson ([34, 8232, 96, 96, 96] @ js ''json'' @ [34]) = Inr [34, 8232, 34]"
    by (simp only: extractJson_stages separator_ticks_second separator_string_valid if_True)
  have 5: "trim ([34, 8232, 96, 96, 96] @ js ''json'' @ [34]) = ([34, 8232, 96, 96, 96] @ js ''json'' @ [34])"
    by (simp add: trim_def char_defs)
  have a: "extractJson_twice ([96, 96, 96, 96, 96, 96, 10] @ js ''1'') = Inr [49]"
    by (simp only: extractJson_twice_def 1 2 sum.case)
  have b: "extractJson_twice ([34, 8232, 96, 96, 96, 96, 96, 96] @ js ''json'' @ [34]) = Inr [34, 8232, 34]"
    by (simp only: extractJson_twice_def 3 4 sum.case)
  have c: "extractJson_twice ([96, 96, 96, 96, 96, 96, 10] @ js ''1'') \<noteq> extractJson ([96, 96, 96, 96, 96, 96, 10] @ js ''1'')"
    by (simp only: a 1) simp
  have d: "extractJson_twice ([34, 8232, 96, 96, 96, 96, 96, 96] @ js ''json'' @ [34]) \<noteq> extractJson ([34, 8232, 96, 96, 96, 96, 96, 96] @ js ''json'' @ [34])"
    by (simp only: b 3) (simp add: js_def)
  from 1 newline_one_valid a c 3 separator_ticks_valid 5 b d show ?thesis
    by (intro conjI)
qed

subsection \<open>Why the amended claims carry their conditions\<close>

text \<open>
  Why the separators are excluded: a JSON string may hold U+2028 raw, and the fence
  patterns take it for the end of a line.
\<close>

lemma separator_text_valid:
  "valid_json (js ''{\"a\":\"'' @ [8232, 96, 96, 96] @ js ''x\"}'')"
  by (simp add: valid_json_def char_defs parse_defs)

lemma separator_text_candidate:
  "candidate (js ''{\"a\":\"'' @ [8232, 96, 96, 96] @ js ''x\"}'')
     = js ''{\"a\":\"'' @ [8232] @ js ''x\"}''"
  by (simp add: char_defs candidate_defs)

lemma separator_result_valid:
  "valid_json (js ''{\"a\":\"'' @ [8232] @ js ''x\"}'')"
  by (simp add: valid_json_def char_defs parse_defs)

lemma extractJson_separator_fence:
  "valid_json (js ''{\"a\":\"'' @ [8232, 96, 96, 96] @ js ''x\"}'')
   \<and> extractJson (js ''{\"a\":\"'' @ [8232, 96, 96, 96] @ js ''x\"}'')
       = Inr (js ''{\"a\":\"'' @ [8232] @ js ''x\"}'')"
  using separator_text_valid
  by (simp only: extractJson_stages separator_text_candidate separator_result_valid if_True)

text \<open>Why white space around the returned text is excluded at the end as well.\<close>

lemma semicolon_candidate: "candidate (js ''1 ;'') = js ''1 ''"
  by (simp add: char_defs candidate_defs)

lemma one_space_valid: "valid_json (js ''1 '')"
  by (simp add: valid_json_def char_defs parse_defs)

lemma one_space_candidate: "candidate (js ''1 '') = js ''1''"
  by (simp add: char_defs candidate_defs)

lemma extractJson_trailing_space:
  "extractJson (js ''1 ;'') = Inr (js ''1 '') \<and> valid_json (js ''1 '')
   \<and> extractJson_twice (js ''1 ;'') = Inr (js ''1'')"
proof -
  have 1: "extractJson (js ''1 ;'') = Inr (js ''1 '')"
    by (simp only: extractJson_stages semicolon_candidate one_space_valid if_True)
  have "valid_json (js ''1'')"
    using one_valid by (simp add: js_def)
  then have 2: "extractJson (js ''1 '') = Inr (js ''1'')"
    by (simp only: extractJson_stages one_space_candidate if_True)
  from 1 2 one_space_valid show ?thesis
    by (simp add: extractJson_twice_def)
qed

end
